theory Spec2Isabelle
  imports Main "HOL-Library.Word" "HOL-Library.Multiset" "HOL-Library.Log_Nat"
begin

unbundle bit_operations_syntax

section \<open>Data model\<close>

text \<open>
  \<^verbatim>\<open>postings_data<PrimaryKey, SecondaryKey>\<close> (include/index/postings_data.tcc) holds
  a primary key \<^verbatim>\<open>_p_id\<close> and a vector \<^verbatim>\<open>_counts\<close> of
  \<^verbatim>\<open>std::pair<SecondaryKey, double>\<close>. Both key types are 64-bit unsigned
  identifiers. A \<^verbatim>\<open>double\<close> is carried as its IEEE-754 binary64 bit pattern: this is
  what \<^verbatim>\<open>*reinterpret_cast<uint64_t*>(&d)\<close> hands to the writer, and \<^verbatim>\<open>0.0\<close> is the
  all-zero word.
\<close>

type_synonym primary_key = "64 word"
type_synonym secondary_key = "64 word"
type_synonym weight = "64 word"
type_synonym pair_t = "secondary_key \<times> weight"
type_synonym count_t = "pair_t list"

record postings_data =
  p_id :: primary_key
  counts :: count_t

text \<open>
  What the C++ leaves undefined or what the stream reports is a value of the model:
  an index past the end of a vector, an iterator used after the vector it points into
  has grown, a read past the end of the input.
\<close>

datatype error = OutOfBounds | IteratorInvalidated | Truncated

text \<open>The constructor \<^verbatim>\<open>postings_data(PrimaryKey p_id)\<close>: no pairs yet.\<close>

definition new_postings_data :: "primary_key \<Rightarrow> postings_data" where
  "new_postings_data p = \<lparr>p_id = p, counts = []\<rparr>"

definition primary_key :: "postings_data \<Rightarrow> primary_key" where
  "primary_key r = p_id r"

text \<open>
  Invariants 1 and 2 of the record: strictly ascending secondary keys (which excludes a
  repeated key). Invariant 3: every weight is a finite double that is not negative, that
  is, sign bit clear and exponent field below \<open>0x7FF\<close>; on bit patterns this is one
  unsigned comparison.
\<close>

definition strictly_ascending :: "count_t \<Rightarrow> bool" where
  "strictly_ascending cs = sorted_wrt (<) (map fst cs)"

definition finite_nonneg :: "weight \<Rightarrow> bool" where
  "finite_nonneg w = (w < 0x7FF0000000000000)"

definition valid_counts :: "count_t \<Rightarrow> bool" where
  "valid_counts cs = (strictly_ascending cs \<and> list_all (\<lambda>p. finite_nonneg (snd p)) cs)"

section \<open>Library routines the record relies on\<close>

text \<open>
  \<^verbatim>\<open>std::lower_bound(first, first + len, s, comp)\<close> with
  \<^verbatim>\<open>comp(p, s) = p.first < s\<close>: the halving loop of the standard library, on
  indices into the vector.
\<close>

function lower_bound_from :: "count_t \<Rightarrow> nat \<Rightarrow> nat \<Rightarrow> secondary_key \<Rightarrow> nat" where
  "lower_bound_from cs first len s =
     (if len = 0 then first
      else let half = len div 2; middle = first + half
           in if fst (cs ! middle) < s
              then lower_bound_from cs (middle + 1) (len - half - 1) s
              else lower_bound_from cs first half s)"
  by pat_completeness auto
termination
  by (relation "measure (\<lambda>(cs, first, len, s). len)") auto

declare lower_bound_from.simps [simp del]

definition lower_bound :: "count_t \<Rightarrow> nat \<Rightarrow> secondary_key \<Rightarrow> nat" where
  "lower_bound cs n s = lower_bound_from cs 0 n s"

text \<open>
  \<^verbatim>\<open>std::sort\<close> with the comparator \<^verbatim>\<open>a.first < b.first\<close>. The standard
  fixes the result up to the order of pairs with equal keys; the model keeps them in
  their input order. Every statement below about sorted output concerns the keys and the
  multiset of pairs only.
\<close>

definition std_sort :: "count_t \<Rightarrow> count_t" where
  "std_sort cs = sort_key fst cs"

text \<open>
  Addition of two doubles that are finite and not negative (all that invariant 3
  admits), on bit patterns, rounding to nearest, ties to even. With exponent field
  \<open>E\<close> and fraction \<open>F\<close> the value is \<open>m * 2 ^ (e - 1075)\<close> where
  \<open>(e, m) = (1, F)\<close> for a subnormal and \<open>(E, 2 ^ 52 + F)\<close> otherwise, and the bit
  pattern is \<open>(e - 1) * 2 ^ 52 + m\<close>. The exact sum is formed at the smaller exponent
  and cut back to 53 bits; a result at or beyond the pattern of infinity is infinity.
  Operands outside that domain are not modelled.
\<close>

definition dbl_exponent :: "weight \<Rightarrow> nat" where
  "dbl_exponent w = max 1 (unat (drop_bit 52 w))"

definition dbl_mantissa :: "weight \<Rightarrow> nat" where
  "dbl_mantissa w =
     (if drop_bit 52 w = 0 then unat (take_bit 52 w) else 2 ^ 52 + unat (take_bit 52 w))"

definition double_add :: "weight \<Rightarrow> weight \<Rightarrow> weight" where
  "double_add a b =
     (let e0 = min (dbl_exponent a) (dbl_exponent b);
          S = dbl_mantissa a * 2 ^ (dbl_exponent a - e0)
            + dbl_mantissa b * 2 ^ (dbl_exponent b - e0);
          sh = floorlog 2 S - 53;
          q = S div 2 ^ sh;
          r = S mod 2 ^ sh;
          q' = (if 2 ^ sh < 2 * r \<or> (2 * r = 2 ^ sh \<and> odd q) then q + 1 else q);
          bits = (e0 + sh - 1) * 2 ^ 52 + q'
      in if 0x7FF0000000000000 \<le> bits then 0x7FF0000000000000 else of_nat bits)"

section \<open>Operations of \<^verbatim>\<open>postings_data\<close>\<close>

text \<open>\<^verbatim>\<open>count(s_id)\<close>: binary search, \<^verbatim>\<open>0.0\<close> when the key is not found.\<close>

definition count_pd :: "postings_data \<Rightarrow> secondary_key \<Rightarrow> weight" where
  "count_pd r s_id =
     (let it = lower_bound (counts r) (length (counts r)) s_id
      in if it = length (counts r) \<or> fst (counts r ! it) \<noteq> s_id then 0
         else snd (counts r ! it))"

text \<open>\<^verbatim>\<open>set_counts(counts)\<close>: copy, then sort by key. Nothing else is done.\<close>

definition set_counts :: "postings_data \<Rightarrow> count_t \<Rightarrow> postings_data" where
  "set_counts r cs = r\<lparr>counts := std_sort cs\<rparr>"

text \<open>
  \<^verbatim>\<open>merge_with(other)\<close>, for \<open>other\<close> an object different from the receiver.
  One step of the loop over \<^verbatim>\<open>other._counts\<close>: the search covers the first
  \<open>orig_length\<close> pairs only, \<^verbatim>\<open>_counts.end()\<close> is the end of the vector as grown
  so far, and \<open>add\<close> is the \<^verbatim>\<open>+=\<close> of doubles.
\<close>

definition merge_step ::
  "(weight \<Rightarrow> weight \<Rightarrow> weight) \<Rightarrow> nat \<Rightarrow> count_t \<Rightarrow> pair_t \<Rightarrow> count_t" where
  "merge_step add orig_length cs p =
     (let it = lower_bound cs orig_length (fst p)
      in if it = length cs \<or> fst (cs ! it) \<noteq> fst p then cs @ [p]
         else cs[it := (fst (cs ! it), add (snd (cs ! it)) (snd p))])"

definition merge_with ::
  "(weight \<Rightarrow> weight \<Rightarrow> weight) \<Rightarrow> postings_data \<Rightarrow> postings_data \<Rightarrow> postings_data" where
  "merge_with add self other =
     self\<lparr>counts :=
       std_sort (foldl (merge_step add (length (counts self))) (counts self) (counts other))\<rparr>"

text \<open>
  What the merge is to produce, in the words of its description: a key of one record only
  keeps its weight, a key of both gets the sum. And the closed form of the vector the
  loop leaves before the final sort: the pairs of the receiver with their weights
  raised, followed by the pairs of \<open>other\<close> whose key the receiver does not have.
\<close>

fun sum_weights ::
  "(weight \<Rightarrow> weight \<Rightarrow> weight) \<Rightarrow> weight option \<Rightarrow> weight option \<Rightarrow> weight option" where
  "sum_weights add None None = None"
| "sum_weights add (Some x) None = Some x"
| "sum_weights add None (Some y) = Some y"
| "sum_weights add (Some x) (Some y) = Some (add x y)"

definition raised_pairs :: "(weight \<Rightarrow> weight \<Rightarrow> weight) \<Rightarrow> count_t \<Rightarrow> count_t \<Rightarrow> count_t" where
  "raised_pairs add a b =
     map (\<lambda>p. (fst p, case map_of b (fst p) of None \<Rightarrow> snd p | Some v \<Rightarrow> add (snd p) v)) a"

definition fresh_pairs :: "count_t \<Rightarrow> count_t \<Rightarrow> count_t" where
  "fresh_pairs a b = filter (\<lambda>p. fst p \<notin> fst ` set a) b"

text \<open>
  The same method on objects in a store, so that \<open>self\<close> and \<open>other\<close> may be one
  object. The range-based \<^verbatim>\<open>for\<close> fixes its end iterator before the first step and
  reads \<^verbatim>\<open>p\<close> from \<open>other\<close> as it is at that step. When both names denote one
  vector, \<^verbatim>\<open>emplace_back\<close> invalidates the iterators of the running loop.
\<close>

type_synonym store = "nat \<Rightarrow> postings_data"

definition merge_body ::
  "(weight \<Rightarrow> weight \<Rightarrow> weight) \<Rightarrow> nat \<Rightarrow> nat \<Rightarrow> nat \<Rightarrow> nat \<Rightarrow> store \<Rightarrow> error + store" where
  "merge_body add self other orig_length i st =
     (let p = counts (st other) ! i;
          cs = counts (st self);
          it = lower_bound cs orig_length (fst p)
      in if it = length cs \<or> fst (cs ! it) \<noteq> fst p
         then (if self = other then Inl IteratorInvalidated
               else Inr (st(self := (st self)\<lparr>counts := cs @ [p]\<rparr>)))
         else Inr (st(self := (st self)
                \<lparr>counts := cs[it := (fst (cs ! it), add (snd (cs ! it)) (snd p))]\<rparr>)))"

fun merge_loop ::
  "(weight \<Rightarrow> weight \<Rightarrow> weight) \<Rightarrow> nat \<Rightarrow> nat \<Rightarrow> nat \<Rightarrow> nat list \<Rightarrow> store \<Rightarrow> error + store" where
  "merge_loop add self other orig_length [] st = Inr st"
| "merge_loop add self other orig_length (i # is) st =
     (case merge_body add self other orig_length i st of
        Inl e \<Rightarrow> Inl e
      | Inr st' \<Rightarrow> merge_loop add self other orig_length is st')"

definition merge_with_at ::
  "(weight \<Rightarrow> weight \<Rightarrow> weight) \<Rightarrow> store \<Rightarrow> nat \<Rightarrow> nat \<Rightarrow> error + store" where
  "merge_with_at add st self other =
     (case merge_loop add self other (length (counts (st self)))
             [0 ..< length (counts (st other))] st of
        Inl e \<Rightarrow> Inl e
      | Inr st' \<Rightarrow> Inr (st'(self := (st' self)\<lparr>counts := std_sort (counts (st' self))\<rparr>)))"

section \<open>Serialisation\<close>

text \<open>
  Modelled from the spec: \<^verbatim>\<open>io::compressed_file_writer\<close> and
  \<^verbatim>\<open>io::compressed_file_reader\<close> are defined outside the files verified here. They
  are the codec of unsigned 64-bit values, used through \<^verbatim>\<open>write(uint64_t)\<close> and
  \<^verbatim>\<open>next()\<close> only: the written file is the sequence of values handed to
  \<^verbatim>\<open>write\<close>, \<^verbatim>\<open>next\<close> returns them in that order, and a read past the end
  is the error \<open>Truncated\<close>. The end-of-record marker \<^verbatim>\<open>_delimiter\<close> is a constant
  of the class, declared in index/postings_data.h, which is not among these files either:
  it is a parameter of the two functions.
\<close>

type_synonym tokens = "64 word list"

text \<open>
  \<^verbatim>\<open>write_compressed\<close>. The body of the loop, for index \<open>i\<close>, on the copy
  \<^verbatim>\<open>mutable_counts\<close>, the running \<^verbatim>\<open>cur_id\<close> and the output so far.
\<close>

definition write_step :: "count_t \<times> 64 word \<times> tokens \<Rightarrow> nat \<Rightarrow> count_t \<times> 64 word \<times> tokens" where
  "write_step s i =
     (case s of (mc, cur_id, out) \<Rightarrow>
        let temp_id = fst (mc ! i);
            mc' = mc[i := (fst (mc ! i) - cur_id, snd (mc ! i))]
        in (mc', temp_id, out @ [fst (mc' ! i), snd (mc' ! i)]))"

definition write_compressed :: "64 word \<Rightarrow> postings_data \<Rightarrow> error + tokens" where
  "write_compressed delimiter r =
     (let mutable_counts = counts r
      in if mutable_counts = [] then Inl OutOfBounds
         else case foldl write_step
                     (mutable_counts, fst (mutable_counts ! 0),
                      [fst (mutable_counts ! 0), snd (mutable_counts ! 0)])
                     [1 ..< length mutable_counts] of
                (mc, cur_id, out) \<Rightarrow> Inr (out @ [delimiter]))"

text \<open>
  \<^verbatim>\<open>read_compressed\<close>: the loop runs until a key position holds the delimiter. Each
  round takes one value for the key and, unless it is the delimiter, one for the weight,
  which is not compared with anything. The result is the record with its new pairs and
  the input that is left; the primary key of the receiver is not touched.
\<close>

fun read_loop :: "64 word \<Rightarrow> 64 word \<Rightarrow> count_t \<Rightarrow> tokens \<Rightarrow> error + (count_t \<times> tokens)" where
  "read_loop delimiter last_id acc [] = Inl Truncated"
| "read_loop delimiter last_id acc [this_id] =
     (if this_id = delimiter then Inr (acc, []) else Inl Truncated)"
| "read_loop delimiter last_id acc (this_id # next # rest) =
     (if this_id = delimiter then Inr (acc, next # rest)
      else read_loop delimiter (last_id + this_id) (acc @ [(last_id + this_id, next)]) rest)"

definition read_compressed ::
  "64 word \<Rightarrow> postings_data \<Rightarrow> tokens \<Rightarrow> error + (postings_data \<times> tokens)" where
  "read_compressed delimiter r input =
     (case read_loop delimiter 0 [] input of
        Inl e \<Rightarrow> Inl e
      | Inr (cs, rest) \<Rightarrow> Inr (r\<lparr>counts := cs\<rparr>, rest))"

text \<open>
  The layout in the words of the format description: the first key as it is, every later
  key as its distance from the key before, each followed by its weight.
\<close>

fun gap_layout :: "secondary_key \<Rightarrow> count_t \<Rightarrow> tokens" where
  "gap_layout prev [] = []"
| "gap_layout prev ((k, w) # rest) = (k - prev) # w # gap_layout k rest"

text \<open>The values of that layout that stand at a key position.\<close>

fun key_gaps :: "secondary_key \<Rightarrow> count_t \<Rightarrow> 64 word list" where
  "key_gaps prev [] = []"
| "key_gaps prev ((k, w) # rest) = (k - prev) # key_gaps k rest"

section \<open>The compress pass of the forward index\<close>

text \<open>
  \<^verbatim>\<open>forward_index::impl::compress\<close> (src/index/forward_index.cpp). First its inner
  loop \<^verbatim>\<open>for (doc_id d_id{last_id + 1}; d_id < pdata.primary_key(); ++d_id)\<close>,
  started at \<open>d_id\<close>: the keys it writes an empty record for.
\<close>

function gap_ids :: "primary_key \<Rightarrow> primary_key \<Rightarrow> primary_key list" where
  "gap_ids d_id pk = (if d_id < pk then d_id # gap_ids (d_id + 1) pk else [])"
  by pat_completeness auto
termination
proof (relation "measure (\<lambda>(d_id, pk). unat pk - unat d_id)")
  show "wf (measure (\<lambda>(d_id :: primary_key, pk :: primary_key). unat pk - unat d_id))"
    by simp
next
  fix d_id pk :: primary_key
  assume lt: "d_id < pk"
  hence "unat pk - unat (d_id + 1) < unat pk - unat d_id"
    by unat_arith
  thus "((d_id + 1, pk), (d_id, pk)) \<in> measure (\<lambda>(d_id, pk). unat pk - unat d_id)"
    by simp
qed

declare gap_ids.simps [simp del]

text \<open>
  Modelled from the spec: \<^verbatim>\<open>postings_data::read_packed\<close> and
  \<^verbatim>\<open>postings_file_writer\<close> are defined outside the files verified here.
  \<^verbatim>\<open>read_packed\<close> deserialises the next record and returns 0 at the end of the
  file: the records it yields one after another are the input list. The writer writes a
  stream of records: the records handed to \<^verbatim>\<open>out.write<double>\<close> are the output
  list, in order. \<open>num_docs\<close> is passed to the constructor of the writer and used
  nowhere else.
\<close>

fun compress_loop ::
  "primary_key \<Rightarrow> postings_data list \<Rightarrow> postings_data list \<Rightarrow> postings_data list" where
  "compress_loop last_id out [] = out"
| "compress_loop last_id out (pdata # rest) =
     compress_loop (primary_key pdata)
       (out @ map new_postings_data (gap_ids (last_id + 1) (primary_key pdata)) @ [pdata]) rest"

definition compress :: "nat \<Rightarrow> postings_data list \<Rightarrow> postings_data list" where
  "compress num_docs input = compress_loop 0 [] input"

section \<open>The postings file\<close>

text \<open>
  \<^verbatim>\<open>postings_file\<close> (include/index/postings_file.h): the memory-mapped data file
  \<^verbatim>\<open>postings_\<close> and the offset table \<^verbatim>\<open>byte_locations_\<close>.
\<close>

record postings_file =
  postings :: "8 word list"
  byte_locations :: "64 word list"

text \<open>
  Modelled from the spec: \<^verbatim>\<open>postings_stream\<close> (index/postings_stream.h) is defined
  outside the files verified here. It is an iterator over one record at a known starting
  byte offset, which decodes lazily and holds a borrow into the mapped file; the stream
  constructed by \<^verbatim>\<open>postings_stream{postings_, offset}\<close> is that mapping and that
  offset.
\<close>

record postings_stream =
  mapped :: "8 word list"
  seek_pos :: "64 word"

text \<open>
  Modelled from the spec: \<^verbatim>\<open>num_keys()\<close> is the number of entries of the offset
  table.
\<close>

definition num_keys :: "postings_file \<Rightarrow> nat" where
  "num_keys pf = length (byte_locations pf)"

definition find_stream :: "postings_file \<Rightarrow> primary_key \<Rightarrow> postings_stream option" where
  "find_stream pf pk =
     (if unat pk < length (byte_locations pf)
      then Some \<lparr>mapped = postings pf, seek_pos = byte_locations pf ! unat pk\<rparr>
      else None)"

text \<open>
  \<^verbatim>\<open>find(pk)\<close>. Filling the fresh record from the stream
  (\<^verbatim>\<open>pdata->set_counts(stream->begin(), stream->end())\<close>, with a stream and an
  overload defined outside the files verified here) is the parameter \<open>populate\<close>. In
  that branch the stream is present, by the test just made. Past the offset table the
  fresh record is returned as it is.
\<close>

definition find_pd ::
  "(postings_data \<Rightarrow> postings_stream \<Rightarrow> postings_data)
     \<Rightarrow> postings_file \<Rightarrow> primary_key \<Rightarrow> postings_data" where
  "find_pd populate pf pk =
     (let pdata = new_postings_data pk
      in if unat pk < length (byte_locations pf)
         then (case find_stream pf pk of
                 Some stream \<Rightarrow> populate pdata stream
               | None \<Rightarrow> pdata)
         else pdata)"

section \<open>Binary search\<close>

text \<open>
  The three cases of the halving loop, then two facts about its result: it looks at keys
  inside the searched window only, and on a window whose keys ascend it returns the
  first position whose key is not below \<open>s\<close>.
\<close>

lemma lower_bound_from_0: "lower_bound_from cs first 0 s = first"
  by (subst lower_bound_from.simps) simp

lemma lower_bound_from_less:
  "len \<noteq> 0 \<Longrightarrow> fst (cs ! (first + len div 2)) < s \<Longrightarrow>
   lower_bound_from cs first len s
     = lower_bound_from cs (first + len div 2 + 1) (len - len div 2 - 1) s"
  by (subst lower_bound_from.simps) (simp add: Let_def)

lemma lower_bound_from_not_less:
  "len \<noteq> 0 \<Longrightarrow> \<not> fst (cs ! (first + len div 2)) < s \<Longrightarrow>
   lower_bound_from cs first len s = lower_bound_from cs first (len div 2) s"
  by (subst lower_bound_from.simps) (simp add: Let_def)

lemma lower_bound_from_window:
  "\<forall>i. first \<le> i \<and> i < first + len \<longrightarrow> fst (cs ! i) = fst (ds ! i) \<Longrightarrow>
   lower_bound_from cs first len s = lower_bound_from ds first len s"
proof (induction cs first len s rule: lower_bound_from.induct)
  case (1 cs first len s)
  show ?case
  proof (cases "len = 0")
    case True
    then show ?thesis by (simp add: lower_bound_from_0)
  next
    case False
    let ?half = "len div 2"
    let ?middle = "first + ?half"
    have half: "?half < len" using False by simp
    have mid: "fst (cs ! ?middle) = fst (ds ! ?middle)"
      using "1.prems" False by simp
    show ?thesis
    proof (cases "fst (cs ! ?middle) < s")
      case True
      have sub: "\<forall>i. ?middle + 1 \<le> i \<and> i < ?middle + 1 + (len - ?half - 1)
                   \<longrightarrow> fst (cs ! i) = fst (ds ! i)"
        using "1.prems" half by auto
      have "lower_bound_from cs (?middle + 1) (len - ?half - 1) s
              = lower_bound_from ds (?middle + 1) (len - ?half - 1) s"
        by (rule "1.IH"(1) [OF False refl refl True sub])
      then show ?thesis
        using False True mid by (simp add: lower_bound_from_less)
    next
      case ge: False
      have sub: "\<forall>i. first \<le> i \<and> i < first + ?half \<longrightarrow> fst (cs ! i) = fst (ds ! i)"
        using "1.prems" half by auto
      have "lower_bound_from cs first ?half s = lower_bound_from ds first ?half s"
        by (rule "1.IH"(2) [OF False refl refl ge sub])
      then show ?thesis
        using False ge mid by (simp add: lower_bound_from_not_less)
    qed
  qed
qed

lemma lower_bound_from_partition:
  assumes "\<forall>i j. first \<le> i \<and> i \<le> j \<and> j < first + len \<longrightarrow> fst (cs ! i) \<le> fst (cs ! j)"
  shows "first \<le> lower_bound_from cs first len s
       \<and> lower_bound_from cs first len s \<le> first + len
       \<and> (\<forall>i. first \<le> i \<and> i < lower_bound_from cs first len s \<longrightarrow> fst (cs ! i) < s)
       \<and> (\<forall>i. lower_bound_from cs first len s \<le> i \<and> i < first + len \<longrightarrow> s \<le> fst (cs ! i))"
  using assms
proof (induction cs first len s rule: lower_bound_from.induct)
  case (1 cs first len s)
  show ?case
  proof (cases "len = 0")
    case True
    then show ?thesis by (auto simp add: lower_bound_from_0)
  next
    case False
    let ?half = "len div 2"
    let ?middle = "first + ?half"
    have half: "?half < len" using False by simp
    show ?thesis
    proof (cases "fst (cs ! ?middle) < s")
      case True
      let ?r = "lower_bound_from cs (?middle + 1) (len - ?half - 1) s"
      have eq: "lower_bound_from cs first len s = ?r"
        using False True by (simp add: lower_bound_from_less)
      have sub: "\<forall>i j. ?middle + 1 \<le> i \<and> i \<le> j \<and> j < ?middle + 1 + (len - ?half - 1)
                   \<longrightarrow> fst (cs ! i) \<le> fst (cs ! j)"
        using "1.prems" half by auto
      note ih = "1.IH"(1) [OF False refl refl True sub]
      have below: "fst (cs ! i) < s" if "first \<le> i" "i < ?r" for i
      proof (cases "i \<le> ?middle")
        case le: True
        have "fst (cs ! i) \<le> fst (cs ! ?middle)"
          using "1.prems" that(1) le half by auto
        then show ?thesis using True by simp
      next
        case False
        then show ?thesis using ih that(2) by simp
      qed
      have above: "s \<le> fst (cs ! i)" if "?r \<le> i" "i < first + len" for i
        using ih that half by auto
      show ?thesis
        unfolding eq using ih below above half by auto
    next
      case ge: False
      let ?r = "lower_bound_from cs first ?half s"
      have eq: "lower_bound_from cs first len s = ?r"
        using False ge by (simp add: lower_bound_from_not_less)
      have sub: "\<forall>i j. first \<le> i \<and> i \<le> j \<and> j < first + ?half \<longrightarrow> fst (cs ! i) \<le> fst (cs ! j)"
        using "1.prems" half by auto
      note ih = "1.IH"(2) [OF False refl refl ge sub]
      have above: "s \<le> fst (cs ! i)" if "?r \<le> i" "i < first + len" for i
      proof (cases "i < ?middle")
        case True
        then show ?thesis using ih that(1) by simp
      next
        case False
        hence "fst (cs ! ?middle) \<le> fst (cs ! i)"
          using "1.prems" that(2) by auto
        then show ?thesis using ge by simp
      qed
      show ?thesis
        unfolding eq using ih above half by auto
    qed
  qed
qed

section \<open>Lookup\<close>

lemma strictly_ascending_nth_less:
  "strictly_ascending cs \<Longrightarrow> i < j \<Longrightarrow> j < length cs \<Longrightarrow> fst (cs ! i) < fst (cs ! j)"
  unfolding strictly_ascending_def
  using sorted_wrt_nth_less [of "(<)" "map fst cs" i j] by simp

lemma strictly_ascending_nth_le:
  "strictly_ascending cs \<Longrightarrow> i \<le> j \<Longrightarrow> j < length cs \<Longrightarrow> fst (cs ! i) \<le> fst (cs ! j)"
  using strictly_ascending_nth_less [of cs i j] by (cases "i = j") auto

lemma strictly_ascending_distinct: "strictly_ascending cs \<Longrightarrow> distinct (map fst cs)"
  unfolding strictly_ascending_def by (simp add: strict_sorted_iff)

lemma lower_bound_present:
  assumes asc: "strictly_ascending cs" and j: "j < length cs"
  shows "lower_bound cs (length cs) (fst (cs ! j)) = j"
proof -
  let ?s = "fst (cs ! j)"
  let ?r = "lower_bound_from cs 0 (length cs) ?s"
  have mono: "\<forall>i j. 0 \<le> i \<and> i \<le> j \<and> j < 0 + length cs \<longrightarrow> fst (cs ! i) \<le> fst (cs ! j)"
    using strictly_ascending_nth_le [OF asc] by simp
  note part = lower_bound_from_partition [OF mono, of ?s]
  have "\<not> j < ?r"
  proof
    assume "j < ?r"
    hence "fst (cs ! j) < ?s" using part by blast
    thus False by simp
  qed
  moreover have "\<not> ?r < j"
  proof
    assume lt: "?r < j"
    have "fst (cs ! ?r) < ?s"
      using strictly_ascending_nth_less [OF asc lt j] .
    moreover have "?s \<le> fst (cs ! ?r)"
      using part lt j by simp
    ultimately show False by simp
  qed
  ultimately show ?thesis by (simp add: lower_bound_def)
qed

lemma lower_bound_absent:
  assumes asc: "strictly_ascending cs" and absent: "s \<notin> fst ` set cs"
  shows "lower_bound cs (length cs) s = length cs \<or> fst (cs ! lower_bound cs (length cs) s) \<noteq> s"
proof (cases "lower_bound cs (length cs) s < length cs")
  case True
  hence "cs ! lower_bound cs (length cs) s \<in> set cs" by simp
  then show ?thesis using absent by force
next
  case False
  have mono: "\<forall>i j. 0 \<le> i \<and> i \<le> j \<and> j < 0 + length cs \<longrightarrow> fst (cs ! i) \<le> fst (cs ! j)"
    using strictly_ascending_nth_le [OF asc] by simp
  have "lower_bound cs (length cs) s \<le> length cs"
    using lower_bound_from_partition [OF mono, of s] by (simp add: lower_bound_def)
  then show ?thesis using False by simp
qed

text \<open>
  Claim C8. For a record whose secondary keys ascend strictly, \<^verbatim>\<open>count(k)\<close> returns
  \<^verbatim>\<open>0.0\<close> when \<open>k\<close> is not a key of \<^verbatim>\<open>counts()\<close>, and otherwise exactly the weight
  stored with \<open>k\<close>.
\<close>

theorem count_returns_stored_weight:
  assumes "strictly_ascending (counts r)"
  shows "(s \<notin> fst ` set (counts r) \<longrightarrow> count_pd r s = 0)
       \<and> (\<forall>w. (s, w) \<in> set (counts r) \<longrightarrow> count_pd r s = w)"
proof (intro conjI impI allI)
  assume "s \<notin> fst ` set (counts r)"
  from lower_bound_absent [OF assms this] show "count_pd r s = 0"
    by (auto simp: count_pd_def Let_def)
next
  fix w assume "(s, w) \<in> set (counts r)"
  then obtain j where j: "j < length (counts r)" and at: "counts r ! j = (s, w)"
    by (auto simp: in_set_conv_nth)
  have "lower_bound (counts r) (length (counts r)) s = j"
    using lower_bound_present [OF assms j] at by simp
  then show "count_pd r s = w"
    using j at by (simp add: count_pd_def Let_def)
qed

theorem count_returns_stored_weight_witness:
  "strictly_ascending (counts \<lparr>p_id = 7, counts = [(1, 0x3FF0000000000000), (3, 0x4000000000000000)]\<rparr>)
   \<and> count_pd \<lparr>p_id = 7, counts = [(1, 0x3FF0000000000000), (3, 0x4000000000000000)]\<rparr> 2 = 0
   \<and> count_pd \<lparr>p_id = 7, counts = [(1, 0x3FF0000000000000), (3, 0x4000000000000000)]\<rparr> 3
       = 0x4000000000000000"
proof -
  let ?r = "\<lparr>p_id = 7, counts = [(1, 0x3FF0000000000000), (3, 0x4000000000000000 :: weight)]\<rparr>"
  have asc: "strictly_ascending (counts ?r)"
    by (simp add: strictly_ascending_def)
  have absent: "(2 :: secondary_key) \<notin> fst ` set (counts ?r)" by simp
  have present: "(3, 0x4000000000000000) \<in> set (counts ?r)" by simp
  from count_returns_stored_weight [OF asc, of 2] absent
  have "count_pd ?r 2 = 0" by blast
  moreover from count_returns_stored_weight [OF asc, of 3] present
  have "count_pd ?r 3 = 0x4000000000000000" by blast
  ultimately show ?thesis using asc by simp
qed

section \<open>Serialisation: layout and round trip\<close>

lemma write_step_apply:
  "i < length mc \<Longrightarrow>
   write_step (mc, cur_id, out) i
     = (mc[i := (fst (mc ! i) - cur_id, snd (mc ! i))], fst (mc ! i),
        out @ [fst (mc ! i) - cur_id, snd (mc ! i)])"
  by (simp add: write_step_def Let_def)

lemma gap_layout_Cons:
  "gap_layout prev (p # rest) = (fst p - prev) # snd p # gap_layout (fst p) rest"
  by (cases p) simp

lemma write_loop_layout:
  "length mc - i = n \<Longrightarrow> i \<le> length mc \<Longrightarrow>
   snd (snd (foldl write_step (mc, cur_id, out) [i ..< length mc]))
     = out @ gap_layout cur_id (drop i mc)"
proof (induction n arbitrary: i mc cur_id out)
  case 0
  then show ?case by simp
next
  case (Suc n)
  hence i: "i < length mc" by simp
  let ?mc = "mc[i := (fst (mc ! i) - cur_id, snd (mc ! i))]"
  have upt: "[i ..< length mc] = i # [Suc i ..< length ?mc]"
    using i by (simp add: upt_conv_Cons)
  have dr: "drop i mc = mc ! i # drop (Suc i) ?mc"
    using i by (simp add: Cons_nth_drop_Suc)
  have "snd (snd (foldl write_step (?mc, fst (mc ! i), out @ [fst (mc ! i) - cur_id, snd (mc ! i)])
                   [Suc i ..< length ?mc]))
          = (out @ [fst (mc ! i) - cur_id, snd (mc ! i)]) @ gap_layout (fst (mc ! i)) (drop (Suc i) ?mc)"
    using Suc.prems i by (intro Suc.IH) simp_all
  then show ?case
    unfolding upt dr by (simp add: write_step_apply [OF i] gap_layout_Cons)
qed

lemma write_compressed_Cons:
  assumes c: "counts r = (k, w) # rest"
  shows "write_compressed d r = Inr (k # w # gap_layout k rest @ [d])"
proof -
  have ne: "counts r \<noteq> []" and hd: "counts r ! 0 = (k, w)" and dr: "drop (Suc 0) (counts r) = rest"
    by (simp_all add: c)
  obtain mc cur_id out where
    f: "foldl write_step (counts r, k, [k, w]) [Suc 0 ..< length (counts r)] = (mc, cur_id, out)"
    by (metis prod_cases3)
  have "snd (snd (foldl write_step (counts r, k, [k, w]) [Suc 0 ..< length (counts r)]))
          = [k, w] @ gap_layout k (drop (Suc 0) (counts r))"
    by (rule write_loop_layout [where n = "length rest"]) (simp_all add: c)
  hence "out = k # w # gap_layout k rest"
    by (simp add: f dr)
  then show ?thesis
    by (simp add: write_compressed_def Let_def ne hd f)
qed

lemma read_loop_layout:
  "d \<notin> set (key_gaps last_id cs) \<Longrightarrow>
   read_loop d last_id acc (gap_layout last_id cs @ d # rest) = Inr (acc @ cs, rest)"
proof (induction cs arbitrary: last_id acc)
  case Nil
  then show ?case by (cases rest) simp_all
next
  case (Cons p cs)
  obtain k w where p: "p = (k, w)" by (cases p)
  from Cons.prems have ne: "k - last_id \<noteq> d" and tl: "d \<notin> set (key_gaps k cs)"
    by (auto simp: p)
  have "read_loop d k (acc @ [(k, w)]) (gap_layout k cs @ d # rest) = Inr ((acc @ [(k, w)]) @ cs, rest)"
    by (rule Cons.IH [OF tl])
  then show ?case
    using ne by (simp add: p)
qed

lemma write_compressed_nonempty:
  assumes ne: "counts r \<noteq> []"
  shows "write_compressed d r = Inr (gap_layout 0 (counts r) @ [d])"
proof -
  obtain k w cs where c: "counts r = (k, w) # cs"
    using ne by (cases "counts r") auto
  show ?thesis
    using write_compressed_Cons [OF c, of d] by (simp add: c)
qed

lemma read_compressed_layout:
  assumes nd: "d \<notin> set (key_gaps 0 cs)"
  shows "read_compressed d q ((gap_layout 0 cs @ [d]) @ rest) = Inr (q\<lparr>counts := cs\<rparr>, rest)"
proof -
  have "read_loop d 0 [] (gap_layout 0 cs @ d # rest) = Inr ([] @ cs, rest)"
    by (rule read_loop_layout [OF nd])
  then show ?thesis
    by (simp add: read_compressed_def)
qed

text \<open>
  Claim C1, as the code has it. For a record with at least one pair in which neither the
  first secondary key nor the distance between two consecutive keys equals the delimiter,
  \<^verbatim>\<open>read_compressed\<close> applied to what \<^verbatim>\<open>write_compressed\<close> wrote (whatever
  follows it in the stream) gives back the same pairs in the same order and leaves the
  rest of the stream. The primary key is not written: the receiver keeps its own, so a
  receiver constructed with the key of \<open>r\<close> ends up equal to \<open>r\<close>. Distances are
  taken and added back modulo \<open>2 ^ 64\<close>, so the order of the keys plays no role.
\<close>

theorem write_read_round_trip:
  assumes "counts r \<noteq> []" and "d \<notin> set (key_gaps 0 (counts r))"
  shows "\<exists>ts. write_compressed d r = Inr ts
           \<and> read_compressed d q (ts @ rest) = Inr (q\<lparr>counts := counts r\<rparr>, rest)
           \<and> read_compressed d (new_postings_data (primary_key r)) (ts @ rest) = Inr (r, rest)"
proof (intro exI conjI)
  show "write_compressed d r = Inr (gap_layout 0 (counts r) @ [d])"
    by (rule write_compressed_nonempty [OF assms(1)])
  show "read_compressed d q ((gap_layout 0 (counts r) @ [d]) @ rest)
          = Inr (q\<lparr>counts := counts r\<rparr>, rest)"
    by (rule read_compressed_layout [OF assms(2)])
  have "(new_postings_data (primary_key r))\<lparr>counts := counts r\<rparr> = r"
    by (simp add: new_postings_data_def primary_key_def)
  then show "read_compressed d (new_postings_data (primary_key r))
               ((gap_layout 0 (counts r) @ [d]) @ rest) = Inr (r, rest)"
    using read_compressed_layout [OF assms(2), of "new_postings_data (primary_key r)" rest]
    by simp
qed

theorem write_read_round_trip_witness:
  "counts \<lparr>p_id = 7, counts = [(10, 0x3FF0000000000000), (12, 0x4000000000000000)]\<rparr> \<noteq> []
   \<and> - 1 \<notin> set (key_gaps 0 [(10, 0x3FF0000000000000), (12, 0x4000000000000000)])
   \<and> (\<exists>ts. write_compressed (- 1)
               \<lparr>p_id = 7, counts = [(10, 0x3FF0000000000000), (12, 0x4000000000000000)]\<rparr> = Inr ts
          \<and> read_compressed (- 1) (new_postings_data 7) (ts @ [5])
              = Inr (\<lparr>p_id = 7, counts = [(10, 0x3FF0000000000000), (12, 0x4000000000000000)]\<rparr>, [5]))"
proof -
  let ?r = "\<lparr>p_id = 7, counts = [(10, 0x3FF0000000000000), (12, 0x4000000000000000 :: weight)]\<rparr>"
  have ne: "counts ?r \<noteq> []" by simp
  have nd: "- 1 \<notin> set (key_gaps 0 (counts ?r))" by simp
  from write_read_round_trip [OF ne nd, of "new_postings_data 7" "[5]"]
  obtain ts where "write_compressed (- 1) ?r = Inr ts"
    and "read_compressed (- 1) (new_postings_data 7) (ts @ [5]) = Inr (?r, [5])"
    by (auto simp: primary_key_def)
  then show ?thesis using ne nd by (intro conjI exI [of _ ts]) simp_all
qed

text \<open>
  The round trip of a valid record fails when a key position holds the delimiter value:
  with the all-ones word as delimiter, the record with the single key \<open>2 ^ 64 - 1\<close>
  is written as three values and read back as a record without pairs. The lemma after it
  shows the same for every value of the delimiter.
\<close>

theorem round_trip_delimiter_key_counterexample:
  "valid_counts [(- 1, 0x3FF0000000000000)]
   \<and> write_compressed (- 1) \<lparr>p_id = 7, counts = [(- 1, 0x3FF0000000000000)]\<rparr>
       = Inr [- 1, 0x3FF0000000000000, - 1]
   \<and> read_compressed (- 1) (new_postings_data 7) [- 1, 0x3FF0000000000000, - 1]
       = Inr (\<lparr>p_id = 7, counts = []\<rparr>, [0x3FF0000000000000, - 1])"
proof -
  have "write_compressed (- 1) \<lparr>p_id = 7, counts = [(- 1, 0x3FF0000000000000)]\<rparr>
          = Inr [- 1, 0x3FF0000000000000, - 1]"
    using write_compressed_Cons [of "\<lparr>p_id = 7, counts = [(- 1, 0x3FF0000000000000)]\<rparr>"
            "- 1" "0x3FF0000000000000" "[]" "- 1"]
    by simp
  then show ?thesis
    by (simp add: valid_counts_def strictly_ascending_def finite_nonneg_def
          read_compressed_def new_postings_data_def)
qed

lemma delimiter_key_cuts_record:
  "write_compressed d \<lparr>p_id = p, counts = [(d, w)]\<rparr> = Inr [d, w, d]
   \<and> read_compressed d q [d, w, d] = Inr (q\<lparr>counts := []\<rparr>, [w, d])"
  using write_compressed_Cons [of "\<lparr>p_id = p, counts = [(d, w)]\<rparr>" d w "[]" d]
  by (simp add: read_compressed_def)

text \<open>
  Claim C2, as the code has it. A record with at least one pair is written as its first
  secondary key and weight, then for every later pair the distance from the key before
  it and the weight, then the delimiter. No count of the pairs is written. The record
  with pairs \<open>(10, 1.0), (12, 2.0), (100, 3.0)\<close> becomes
  \<open>10, 1.0, 2, 2.0, 88, 3.0, delimiter\<close>, weights as bit patterns.
\<close>

theorem write_compressed_gap_layout:
  "(counts r = (k, w) # rest \<longrightarrow>
      write_compressed d r = Inr (k # w # gap_layout k rest @ [d]))
   \<and> write_compressed d
        \<lparr>p_id = p, counts = [(10, 0x3FF0000000000000), (12, 0x4000000000000000),
                             (100, 0x4008000000000000)]\<rparr>
       = Inr [10, 0x3FF0000000000000, 2, 0x4000000000000000, 88, 0x4008000000000000, d]"
proof
  show "counts r = (k, w) # rest \<longrightarrow>
      write_compressed d r = Inr (k # w # gap_layout k rest @ [d])"
    using write_compressed_Cons by blast
next
  show "write_compressed d
        \<lparr>p_id = p, counts = [(10, 0x3FF0000000000000), (12, 0x4000000000000000),
                             (100, 0x4008000000000000)]\<rparr>
       = Inr [10, 0x3FF0000000000000, 2, 0x4000000000000000, 88, 0x4008000000000000, d]"
    using write_compressed_Cons
      [of "\<lparr>p_id = p, counts = [(10, 0x3FF0000000000000), (12, 0x4000000000000000),
                                 (100, 0x4008000000000000)]\<rparr>"
          10 "0x3FF0000000000000" "[(12, 0x4000000000000000), (100, 0x4008000000000000)]" d]
    by simp
qed

theorem write_compressed_gap_layout_witness:
  "counts \<lparr>p_id = 7, counts = [(5, 0x3FF0000000000000), (9, 0x4000000000000000)]\<rparr>
     = (5, 0x3FF0000000000000) # [(9, 0x4000000000000000)]
   \<and> write_compressed (- 1) \<lparr>p_id = 7, counts = [(5, 0x3FF0000000000000), (9, 0x4000000000000000)]\<rparr>
       = Inr [5, 0x3FF0000000000000, 4, 0x4000000000000000, - 1]"
proof -
  let ?r = "\<lparr>p_id = 7, counts = [(5, 0x3FF0000000000000), (9, 0x4000000000000000 :: weight)]\<rparr>"
  have c: "counts ?r = (5, 0x3FF0000000000000) # [(9, 0x4000000000000000)]" by simp
  from write_compressed_gap_layout [of ?r 5 "0x3FF0000000000000" "[(9, 0x4000000000000000)]" "- 1"] c
  have "write_compressed (- 1) ?r
          = Inr (5 # 0x3FF0000000000000 # gap_layout 5 [(9, 0x4000000000000000)] @ [- 1])"
    by blast
  then show ?thesis by simp
qed

text \<open>
  The output for that record does not start with the number of pairs.
\<close>

theorem write_compressed_length_prefix_counterexample:
  "write_compressed (- 1)
     \<lparr>p_id = 7, counts = [(10, 0x3FF0000000000000), (12, 0x4000000000000000),
                          (100, 0x4008000000000000)]\<rparr>
     = Inr [10, 0x3FF0000000000000, 2, 0x4000000000000000, 88, 0x4008000000000000, - 1]
   \<and> write_compressed (- 1)
     \<lparr>p_id = 7, counts = [(10, 0x3FF0000000000000), (12, 0x4000000000000000),
                          (100, 0x4008000000000000)]\<rparr>
     \<noteq> Inr [3, 10, 0x3FF0000000000000, 2, 0x4000000000000000, 88, 0x4008000000000000]"
  using write_compressed_Cons
      [of "\<lparr>p_id = 7, counts = [(10, 0x3FF0000000000000), (12, 0x4000000000000000),
                                 (100, 0x4008000000000000)]\<rparr>"
          10 "0x3FF0000000000000" "[(12, 0x4000000000000000), (100, 0x4008000000000000)]" "- 1"]
  by simp

text \<open>
  The reader takes a record without pairs: on a stream that starts with the delimiter
  \<^verbatim>\<open>read_compressed\<close> yields a record without pairs, takes that one value and
  leaves the rest.
\<close>

lemma read_compressed_empty_record:
  "read_compressed d q (d # rest) = Inr (q\<lparr>counts := []\<rparr>, rest)"
  by (cases rest) (simp_all add: read_compressed_def)

text \<open>
  Claim C3, on the code. Serialising a record without pairs is not defined:
  \<^verbatim>\<open>write_compressed\<close> reads \<^verbatim>\<open>mutable_counts[0]\<close> of an empty vector before
  anything is written, whatever the primary key and the delimiter. So nothing is
  emitted that could be read back, while the reader would take the delimiter alone as
  the record without pairs.
\<close>

theorem write_compressed_empty_out_of_bounds:
  "write_compressed d (new_postings_data p) = Inl OutOfBounds
   \<and> write_compressed (- 1) \<lparr>p_id = 7, counts = []\<rparr> = Inl OutOfBounds
   \<and> read_compressed d q (d # rest) = Inr (q\<lparr>counts := []\<rparr>, rest)"
  by (simp add: write_compressed_def new_postings_data_def read_compressed_empty_record)

section \<open>Sorting and \<^verbatim>\<open>set_counts\<close>\<close>

lemma mset_std_sort: "mset (std_sort cs) = mset cs"
  by (simp add: std_sort_def)

lemma set_std_sort: "set (std_sort cs) = set cs"
  by (simp add: std_sort_def)

lemma sorted_std_sort: "sorted (map fst (std_sort cs))"
  by (simp add: std_sort_def sorted_sort_key)

lemma distinct_keys_std_sort: "distinct (map fst (std_sort cs)) = distinct (map fst cs)"
proof -
  have "mset (map fst (std_sort cs)) = mset (map fst cs)"
    by (simp add: mset_std_sort)
  then show ?thesis by (rule mset_eq_imp_distinct_iff)
qed

lemma strictly_ascending_std_sort: "strictly_ascending (std_sort cs) = distinct (map fst cs)"
  by (simp add: strictly_ascending_def strict_sorted_iff sorted_std_sort distinct_keys_std_sort)

text \<open>
  Claim C4, as the code has it. \<^verbatim>\<open>set_counts\<close> keeps the primary key and stores the
  input pairs, all of them, sorted by secondary key: pairs with one key stay separate
  pairs and nothing is summed. The stored keys ascend strictly exactly when the input
  has no repeated key, and the stored pairs satisfy invariants 1 to 3 exactly when,
  besides, every input weight is finite and not negative.
\<close>

theorem set_counts_sorted_permutation:
  "primary_key (set_counts r cs) = primary_key r
   \<and> mset (counts (set_counts r cs)) = mset cs
   \<and> sorted (map fst (counts (set_counts r cs)))
   \<and> (strictly_ascending (counts (set_counts r cs)) \<longleftrightarrow> distinct (map fst cs))
   \<and> (valid_counts (counts (set_counts r cs))
        \<longleftrightarrow> distinct (map fst cs) \<and> list_all (\<lambda>p. finite_nonneg (snd p)) cs)"
  by (simp add: set_counts_def primary_key_def mset_std_sort sorted_std_sort
        strictly_ascending_std_sort valid_counts_def list_all_iff set_std_sort)

theorem set_counts_sorted_permutation_witness:
  "distinct (map fst [(3, 0x3FF0000000000000), (1, 0x4000000000000000 :: weight)] :: secondary_key list)
   \<and> list_all (\<lambda>p. finite_nonneg (snd p)) [(3 :: secondary_key, 0x3FF0000000000000), (1, 0x4000000000000000)]
   \<and> valid_counts (counts (set_counts (new_postings_data 7)
         [(3, 0x3FF0000000000000), (1, 0x4000000000000000)]))
   \<and> counts (set_counts (new_postings_data 7) [(3, 0x3FF0000000000000), (1, 0x4000000000000000)])
       = [(1, 0x4000000000000000), (3, 0x3FF0000000000000)]"
proof -
  let ?cs = "[(3, 0x3FF0000000000000), (1, 0x4000000000000000)] :: count_t"
  have d: "distinct (map fst ?cs)" by simp
  have f: "list_all (\<lambda>p. finite_nonneg (snd p)) ?cs" by (simp add: finite_nonneg_def)
  from set_counts_sorted_permutation [of "new_postings_data 7" ?cs] d f
  have "valid_counts (counts (set_counts (new_postings_data 7) ?cs))" by blast
  moreover have "counts (set_counts (new_postings_data 7) ?cs)
                   = [(1, 0x4000000000000000), (3, 0x3FF0000000000000)]"
    by (simp add: set_counts_def std_sort_def word_le_nat_alt)
  ultimately show ?thesis using d f by blast
qed

text \<open>
  An input with a repeated key: both pairs are stored, so the keys do not ascend
  strictly and the key \<open>1\<close> occurs twice.
\<close>

theorem set_counts_duplicate_key_counterexample:
  "\<not> strictly_ascending (counts (set_counts (new_postings_data 7)
         [(1, 0x3FF0000000000000), (1, 0x4000000000000000)]))
   \<and> length (counts (set_counts (new_postings_data 7)
         [(1, 0x3FF0000000000000), (1, 0x4000000000000000)])) = 2"
  by (simp add: set_counts_def std_sort_def strictly_ascending_def)

section \<open>The merge loop\<close>

text \<open>
  While the loop of \<^verbatim>\<open>merge_with\<close> runs, the vector is the receiver's pairs (keys in
  place, weights raised) followed by the pairs appended so far. The search looks at the
  first \<open>orig_length\<close> keys only; a key found there is raised in place, any other pair
  is appended, also when the search ends on the first appended pair.
\<close>

lemma mem_not_mem_neq: "x \<in> S \<Longrightarrow> y \<notin> S \<Longrightarrow> x \<noteq> y"
  by blast

lemma prefix_key_nth:
  assumes len: "length a' = length a" and keys: "map fst a' = map fst a" and i: "i < length a"
  shows "fst ((a' @ app) ! i) = fst (a ! i)"
proof -
  have "fst ((a' @ app) ! i) = map fst a' ! i"
    using i len by (simp add: nth_append)
  also have "\<dots> = map fst a ! i"
    by (simp only: keys)
  also have "\<dots> = fst (a ! i)"
    using i by simp
  finally show ?thesis .
qed

lemma lower_bound_prefix:
  assumes "length a' = length a" and "map fst a' = map fst a"
  shows "lower_bound (a' @ app) (length a) k = lower_bound a (length a) k"
  unfolding lower_bound_def
  using prefix_key_nth [OF assms] by (intro lower_bound_from_window) simp

lemma merge_step_found:
  assumes asc: "strictly_ascending a" and len: "length a' = length a"
    and keys: "map fst a' = map fst a" and j: "j < length a" and k: "fst p = fst (a ! j)"
  shows "merge_step add (length a) (a' @ app) p
           = a'[j := (fst p, add (snd (a' ! j)) (snd p))] @ app"
proof -
  have it: "lower_bound (a' @ app) (length a) (fst p) = j"
    using lower_bound_prefix [OF len keys] lower_bound_present [OF asc j] k by simp
  have kj: "fst (a' ! j) = fst p"
    using prefix_key_nth [OF len keys j, of "[]"] k by simp
  show ?thesis
    using j len kj by (simp add: merge_step_def it Let_def nth_append list_update_append)
qed

lemma merge_step_fresh:
  assumes asc: "strictly_ascending a" and len: "length a' = length a"
    and keys: "map fst a' = map fst a"
    and na: "fst p \<notin> fst ` set a" and nb: "fst p \<notin> fst ` set app"
  shows "merge_step add (length a) (a' @ app) p = a' @ app @ [p]"
proof -
  let ?it = "lower_bound (a' @ app) (length a) (fst p)"
  have mono: "\<forall>i j. 0 \<le> i \<and> i \<le> j \<and> j < 0 + length a \<longrightarrow> fst (a ! i) \<le> fst (a ! j)"
    using strictly_ascending_nth_le [OF asc] by simp
  have it: "?it = lower_bound a (length a) (fst p)"
    by (rule lower_bound_prefix [OF len keys])
  have "lower_bound a (length a) (fst p) \<le> length a"
    using lower_bound_from_partition [OF mono, of "fst p"] by (simp add: lower_bound_def)
  hence le: "?it \<le> length a"
    unfolding it .
  have c: "?it = length (a' @ app) \<or> fst ((a' @ app) ! ?it) \<noteq> fst p"
  proof (cases "?it < length a")
    case True
    have lt: "lower_bound a (length a) (fst p) < length a"
      using True unfolding it .
    have at: "fst ((a' @ app) ! ?it) = fst (a ! lower_bound a (length a) (fst p))"
      unfolding it by (rule prefix_key_nth [OF len keys lt])
    have "fst (a ! lower_bound a (length a) (fst p)) \<in> fst ` set a"
      using lt by simp
    hence "fst (a ! lower_bound a (length a) (fst p)) \<noteq> fst p"
      using na by (rule mem_not_mem_neq)
    then show ?thesis using at by simp
  next
    case False
    hence eq: "?it = length a'" using le len by simp
    show ?thesis
    proof (cases app)
      case Nil
      then show ?thesis using eq by simp
    next
      case (Cons x xs)
      hence at: "(a' @ app) ! ?it = x" using eq by (simp add: nth_append)
      have "fst x \<in> fst ` set app" using Cons by simp
      hence "fst x \<noteq> fst p" using nb by (rule mem_not_mem_neq)
      then show ?thesis using at by simp
    qed
  qed
  have "merge_step add (length a) (a' @ app) p = (a' @ app) @ [p]"
    unfolding merge_step_def Let_def using c by (rule if_P)
  then show ?thesis by simp
qed

lemma map_of_snoc_other: "x \<noteq> fst p \<Longrightarrow> map_of (bs @ [p]) x = map_of bs x"
  by (simp add: map_add_def split: option.split)

lemma map_of_snoc_new:
  assumes "fst p \<notin> fst ` set bs"
  shows "map_of (bs @ [p]) (fst p) = Some (snd p)"
proof -
  have "map_of bs (fst p) = None"
    using assms by (simp add: map_of_eq_None_iff)
  then show ?thesis by (simp add: map_add_def)
qed

lemma length_raised_pairs: "length (raised_pairs add a b) = length a"
  by (simp add: raised_pairs_def)

lemma keys_raised_pairs: "map fst (raised_pairs add a b) = map fst a"
  by (simp add: raised_pairs_def comp_def)

lemma raised_pairs_Nil: "raised_pairs add a [] = a"
  by (simp add: raised_pairs_def)

lemma raised_pairs_nth:
  "i < length a \<Longrightarrow>
   raised_pairs add a b ! i
     = (fst (a ! i), case map_of b (fst (a ! i)) of None \<Rightarrow> snd (a ! i) | Some v \<Rightarrow> add (snd (a ! i)) v)"
  by (simp add: raised_pairs_def)

lemma raised_pairs_snoc_fresh:
  assumes "fst p \<notin> fst ` set a"
  shows "raised_pairs add a (bs @ [p]) = raised_pairs add a bs"
proof -
  have "map_of (bs @ [p]) (fst x) = map_of bs (fst x)" if "x \<in> set a" for x
  proof -
    have "fst x \<in> fst ` set a" using that by simp
    hence "fst x \<noteq> fst p" using assms by (rule mem_not_mem_neq)
    then show ?thesis by (rule map_of_snoc_other)
  qed
  then show ?thesis
    unfolding raised_pairs_def by (intro map_cong) simp_all
qed

lemma raised_pairs_snoc_found:
  assumes asc: "strictly_ascending a" and j: "j < length a" and k: "fst (a ! j) = k"
    and nb: "k \<notin> fst ` set bs"
  shows "raised_pairs add a (bs @ [(k, w)])
           = (raised_pairs add a bs)[j := (k, add (snd (raised_pairs add a bs ! j)) w)]"
proof (rule nth_equalityI)
  show "length (raised_pairs add a (bs @ [(k, w)]))
          = length ((raised_pairs add a bs)[j := (k, add (snd (raised_pairs add a bs ! j)) w)])"
    by (simp add: length_raised_pairs)
next
  fix i assume "i < length (raised_pairs add a (bs @ [(k, w)]))"
  hence i: "i < length a" by (simp add: length_raised_pairs)
  have none: "map_of bs k = None"
    using nb by (simp add: map_of_eq_None_iff)
  show "raised_pairs add a (bs @ [(k, w)]) ! i
          = (raised_pairs add a bs)[j := (k, add (snd (raised_pairs add a bs ! j)) w)] ! i"
  proof (cases "i = j")
    case True
    have "map_of (bs @ [(k, w)]) k = Some w"
      using map_of_snoc_new [of "(k, w)" bs] nb by simp
    then show ?thesis
      using True j k none by (simp add: raised_pairs_nth length_raised_pairs)
  next
    case False
    have "distinct (map fst a)" by (rule strictly_ascending_distinct [OF asc])
    hence "fst (a ! i) \<noteq> fst (a ! j)"
      using False i j by (metis length_map nth_eq_iff_index_eq nth_map)
    hence "fst (a ! i) \<noteq> fst (k, w)" using k by simp
    hence "map_of (bs @ [(k, w)]) (fst (a ! i)) = map_of bs (fst (a ! i))"
      by (rule map_of_snoc_other)
    then show ?thesis
      using False i by (simp add: raised_pairs_nth length_raised_pairs)
  qed
qed

lemma fresh_pairs_snoc_found:
  "fst p \<in> fst ` set a \<Longrightarrow> fresh_pairs a (bs @ [p]) = fresh_pairs a bs"
  by (simp add: fresh_pairs_def)

lemma fresh_pairs_snoc_fresh:
  "fst p \<notin> fst ` set a \<Longrightarrow> fresh_pairs a (bs @ [p]) = fresh_pairs a bs @ [p]"
  by (simp add: fresh_pairs_def)

lemma keys_fresh_pairs: "fst ` set (fresh_pairs a b) = fst ` set b - fst ` set a"
  by (auto simp: fresh_pairs_def)

lemma merge_loop_closed_form:
  assumes asc: "strictly_ascending a"
  shows "distinct (map fst b) \<Longrightarrow>
         foldl (merge_step add (length a)) a b = raised_pairs add a b @ fresh_pairs a b"
proof (induction b rule: rev_induct)
  case Nil
  then show ?case by (simp add: raised_pairs_Nil fresh_pairs_def)
next
  case (snoc p bs)
  obtain k w where p: "p = (k, w)" by (cases p)
  from snoc.prems have dbs: "distinct (map fst bs)" and nb: "k \<notin> fst ` set bs"
    by (simp_all add: p)
  have ih: "foldl (merge_step add (length a)) a bs = raised_pairs add a bs @ fresh_pairs a bs"
    by (rule snoc.IH [OF dbs])
  have step: "foldl (merge_step add (length a)) a (bs @ [(k, w)])
                = merge_step add (length a) (raised_pairs add a bs @ fresh_pairs a bs) (k, w)"
    by (simp add: ih)
  show ?case
  proof (cases "k \<in> fst ` set a")
    case True
    then obtain j where j: "j < length a" and kj: "fst (a ! j) = k"
      by (auto simp: in_set_conv_nth)
    have "merge_step add (length a) (raised_pairs add a bs @ fresh_pairs a bs) (k, w)
            = (raised_pairs add a bs)[j := (fst (k, w), add (snd (raised_pairs add a bs ! j)) (snd (k, w)))]
              @ fresh_pairs a bs"
      by (rule merge_step_found [OF asc length_raised_pairs keys_raised_pairs j]) (simp add: kj)
    also have "\<dots> = raised_pairs add a (bs @ [(k, w)]) @ fresh_pairs a (bs @ [(k, w)])"
      using raised_pairs_snoc_found [OF asc j kj nb, of add w] True
      by (simp add: fresh_pairs_snoc_found)
    finally show ?thesis unfolding p step .
  next
    case False
    have nf: "fst (k, w) \<notin> fst ` set (fresh_pairs a bs)"
      using nb by (simp add: keys_fresh_pairs)
    have na: "fst (k, w) \<notin> fst ` set a" using False by simp
    have "merge_step add (length a) (raised_pairs add a bs @ fresh_pairs a bs) (k, w)
            = raised_pairs add a bs @ fresh_pairs a bs @ [(k, w)]"
      by (rule merge_step_fresh [OF asc length_raised_pairs keys_raised_pairs na nf])
    also have "\<dots> = raised_pairs add a (bs @ [(k, w)]) @ fresh_pairs a (bs @ [(k, w)])"
      using na by (simp add: raised_pairs_snoc_fresh fresh_pairs_snoc_fresh)
    finally show ?thesis unfolding p step .
  qed
qed

section \<open>What \<^verbatim>\<open>merge_with\<close> computes\<close>

lemma map_of_raised_pairs:
  "map_of (raised_pairs add a b) k
     = map_option (\<lambda>w. case map_of b k of None \<Rightarrow> w | Some v \<Rightarrow> add w v) (map_of a k)"
  by (induction a) (simp_all add: raised_pairs_def)

lemma key_in_keys: "(k, w) \<in> set a \<Longrightarrow> k \<in> fst ` set a"
  by (rule image_eqI [of _ _ "(k, w)"]) simp_all

lemma map_of_fresh_pairs:
  "map_of (fresh_pairs a b) k = (if k \<in> fst ` set a then None else map_of b k)"
  by (induction b) (auto simp: fresh_pairs_def dest: key_in_keys)

lemma map_of_closed_form:
  "map_of (raised_pairs add a b @ fresh_pairs a b) k
     = sum_weights add (map_of a k) (map_of b k)"
proof (cases "map_of a k")
  case None
  hence "k \<notin> fst ` set a" by (simp add: map_of_eq_None_iff)
  then show ?thesis
    using None by (cases "map_of b k") (simp_all add: map_add_def map_of_raised_pairs map_of_fresh_pairs)
next
  case (Some x)
  then show ?thesis
    by (cases "map_of b k") (simp_all add: map_add_def map_of_raised_pairs)
qed

lemma distinct_closed_form:
  assumes "distinct (map fst a)" and "distinct (map fst b)"
  shows "distinct (map fst (raised_pairs add a b @ fresh_pairs a b))"
proof -
  have "distinct (map fst (fresh_pairs a b))"
    using assms(2) unfolding fresh_pairs_def by (rule distinct_map_filter)
  moreover have "fst ` set a \<inter> fst ` set (fresh_pairs a b) = {}"
    by (auto simp: keys_fresh_pairs)
  ultimately show ?thesis
    using assms(1) by (simp add: keys_raised_pairs)
qed

lemma map_of_std_sort:
  assumes "distinct (map fst cs)"
  shows "map_of (std_sort cs) = map_of cs"
proof (rule map_of_inject_set [THEN iffD2])
  show "distinct (map fst (std_sort cs))" using assms by (simp add: distinct_keys_std_sort)
  show "distinct (map fst cs)" by (rule assms)
  show "set (std_sort cs) = set cs" by (rule set_std_sort)
qed

lemma counts_merge_with:
  "strictly_ascending (counts a) \<Longrightarrow> strictly_ascending (counts b) \<Longrightarrow>
   counts (merge_with add a b)
     = std_sort (raised_pairs add (counts a) (counts b) @ fresh_pairs (counts a) (counts b))"
  by (simp add: merge_with_def merge_loop_closed_form strictly_ascending_distinct)

lemma strictly_ascending_merge_with:
  assumes "strictly_ascending (counts a)" and "strictly_ascending (counts b)"
  shows "strictly_ascending (counts (merge_with add a b))"
  unfolding counts_merge_with [OF assms] strictly_ascending_std_sort
  by (intro distinct_closed_form strictly_ascending_distinct assms)

lemma map_of_merge_with:
  assumes "strictly_ascending (counts a)" and "strictly_ascending (counts b)"
  shows "map_of (counts (merge_with add a b)) k
           = sum_weights add (map_of (counts a) k) (map_of (counts b) k)"
proof -
  have "distinct (map fst (raised_pairs add (counts a) (counts b) @ fresh_pairs (counts a) (counts b)))"
    by (intro distinct_closed_form strictly_ascending_distinct assms)
  then show ?thesis
    unfolding counts_merge_with [OF assms]
    by (simp only: map_of_std_sort map_of_closed_form)
qed

lemma strictly_ascending_unique:
  assumes x: "strictly_ascending xs" and y: "strictly_ascending ys"
    and m: "map_of xs = map_of ys"
  shows "xs = ys"
proof -
  have dx: "distinct (map fst xs)" and dy: "distinct (map fst ys)"
    using x y by (simp_all add: strictly_ascending_distinct)
  have s: "set xs = set ys"
    using m dx dy by (simp add: map_of_inject_set)
  have sx: "sorted (map fst xs)" and sy: "sorted (map fst ys)"
    using x y by (simp_all add: strictly_ascending_def strict_sorted_iff)
  have "set (map fst xs) = set (map fst ys)" using s by simp
  hence keys: "map fst xs = map fst ys"
    using sx sy dx dy by (intro sorted_distinct_set_unique)
  show ?thesis
  proof (rule nth_equalityI)
    show len: "length xs = length ys"
      using keys by (metis length_map)
    fix i assume i: "i < length xs"
    have fi: "fst (xs ! i) = fst (ys ! i)"
      using keys i len by (metis nth_map)
    have "map_of xs (fst (xs ! i)) = Some (snd (xs ! i))"
      using dx i by simp
    moreover have "map_of ys (fst (ys ! i)) = Some (snd (ys ! i))"
      using dy i len by simp
    ultimately have "snd (xs ! i) = snd (ys ! i)"
      using m fi by simp
    with fi show "xs ! i = ys ! i" by (simp add: prod_eq_iff)
  qed
qed

lemma sum_weights_commute:
  assumes "\<And>x y. u = Some x \<Longrightarrow> v = Some y \<Longrightarrow> add x y = add y x"
  shows "sum_weights add u v = sum_weights add v u"
proof (cases u)
  case None
  then show ?thesis by (cases v) simp_all
next
  case ux: (Some x)
  show ?thesis
  proof (cases v)
    case None
    then show ?thesis by (simp add: ux)
  next
    case vy: (Some y)
    have "add x y = add y x" by (rule assms [OF ux vy])
    then show ?thesis by (simp add: ux vy)
  qed
qed

lemma sum_weights_assoc:
  assumes "\<And>x y z. u = Some x \<Longrightarrow> v = Some y \<Longrightarrow> w = Some z
             \<Longrightarrow> add (add x y) z = add x (add y z)"
  shows "sum_weights add (sum_weights add u v) w = sum_weights add u (sum_weights add v w)"
proof (cases u)
  case None
  then show ?thesis by (cases v; cases w) simp_all
next
  case ux: (Some x)
  show ?thesis
  proof (cases v)
    case None
    then show ?thesis by (cases w) (simp_all add: ux)
  next
    case vy: (Some y)
    show ?thesis
    proof (cases w)
      case None
      then show ?thesis by (simp add: ux vy)
    next
      case wz: (Some z)
      have "add (add x y) z = add x (add y z)" by (rule assms [OF ux vy wz])
      then show ?thesis by (simp only: ux vy wz sum_weights.simps)
    qed
  qed
qed

lemma weight_of_map_of: "map_of cs k = Some x \<Longrightarrow> x \<in> snd ` set cs"
  by (rule image_eqI [of _ _ "(k, x)"]) (simp_all add: map_of_SomeD)

lemma merge_with_commute:
  assumes a: "strictly_ascending (counts a)" and b: "strictly_ascending (counts b)"
    and comm: "\<forall>x \<in> snd ` set (counts a). \<forall>y \<in> snd ` set (counts b). add x y = add y x"
  shows "counts (merge_with add a b) = counts (merge_with add b a)"
proof (rule strictly_ascending_unique)
  show "strictly_ascending (counts (merge_with add a b))"
    by (rule strictly_ascending_merge_with [OF a b])
  show "strictly_ascending (counts (merge_with add b a))"
    by (rule strictly_ascending_merge_with [OF b a])
  show "map_of (counts (merge_with add a b)) = map_of (counts (merge_with add b a))"
  proof
    fix k
    have "sum_weights add (map_of (counts a) k) (map_of (counts b) k)
            = sum_weights add (map_of (counts b) k) (map_of (counts a) k)"
    proof (rule sum_weights_commute)
      fix x y
      assume "map_of (counts a) k = Some x" and "map_of (counts b) k = Some y"
      hence "x \<in> snd ` set (counts a)" and "y \<in> snd ` set (counts b)"
        by (simp_all add: weight_of_map_of)
      then show "add x y = add y x"
        by (rule comm [rule_format])
    qed
    then show "map_of (counts (merge_with add a b)) k = map_of (counts (merge_with add b a)) k"
      by (simp only: map_of_merge_with [OF a b] map_of_merge_with [OF b a])
  qed
qed

lemma merge_with_assoc:
  assumes a: "strictly_ascending (counts a)" and b: "strictly_ascending (counts b)"
    and c: "strictly_ascending (counts c)"
    and assoc: "\<forall>x \<in> snd ` set (counts a). \<forall>y \<in> snd ` set (counts b). \<forall>z \<in> snd ` set (counts c).
                  add (add x y) z = add x (add y z)"
  shows "counts (merge_with add (merge_with add a b) c)
           = counts (merge_with add a (merge_with add b c))"
proof (rule strictly_ascending_unique)
  have ab: "strictly_ascending (counts (merge_with add a b))"
    by (rule strictly_ascending_merge_with [OF a b])
  have bc: "strictly_ascending (counts (merge_with add b c))"
    by (rule strictly_ascending_merge_with [OF b c])
  show "strictly_ascending (counts (merge_with add (merge_with add a b) c))"
    by (rule strictly_ascending_merge_with [OF ab c])
  show "strictly_ascending (counts (merge_with add a (merge_with add b c)))"
    by (rule strictly_ascending_merge_with [OF a bc])
  show "map_of (counts (merge_with add (merge_with add a b) c))
          = map_of (counts (merge_with add a (merge_with add b c)))"
  proof
    fix k
    have "sum_weights add (sum_weights add (map_of (counts a) k) (map_of (counts b) k))
            (map_of (counts c) k)
          = sum_weights add (map_of (counts a) k)
              (sum_weights add (map_of (counts b) k) (map_of (counts c) k))"
    proof (rule sum_weights_assoc)
      fix x y z
      assume "map_of (counts a) k = Some x" and "map_of (counts b) k = Some y"
        and "map_of (counts c) k = Some z"
      hence "x \<in> snd ` set (counts a)" and "y \<in> snd ` set (counts b)"
        and "z \<in> snd ` set (counts c)"
        by (simp_all add: weight_of_map_of)
      then show "add (add x y) z = add x (add y z)"
        by (rule assoc [rule_format])
    qed
    then show "map_of (counts (merge_with add (merge_with add a b) c)) k
                 = map_of (counts (merge_with add a (merge_with add b c))) k"
      by (simp only: map_of_merge_with [OF ab c] map_of_merge_with [OF a b]
            map_of_merge_with [OF a bc] map_of_merge_with [OF b c])
  qed
qed

section \<open>Sums of doubles\<close>

text \<open>
  The addition is symmetric in its operands. The bit length of a numeral is computed
  digit by digit, which evaluates the sums of the concrete weights used below.
\<close>

lemma double_add_commute: "double_add a b = double_add b a"
proof -
  define e0 where "e0 = min (dbl_exponent a) (dbl_exponent b)"
  define S where "S = dbl_mantissa a * 2 ^ (dbl_exponent a - e0)
                    + dbl_mantissa b * 2 ^ (dbl_exponent b - e0)"
  have e0': "min (dbl_exponent b) (dbl_exponent a) = e0"
    unfolding e0_def by (rule min.commute)
  have S': "dbl_mantissa b * 2 ^ (dbl_exponent b - e0)
              + dbl_mantissa a * 2 ^ (dbl_exponent a - e0) = S"
    unfolding S_def by (rule add.commute)
  show ?thesis
    by (simp only: double_add_def Let_def e0' e0_def [symmetric] S' S_def [symmetric])
qed

lemma floorlog2_0: "floorlog 2 0 = 0"
  by (simp add: floorlog_def)

lemma floorlog2_Suc0: "floorlog 2 (Suc 0) = 1"
  by (simp add: floorlog_def)

lemma floorlog2_One: "floorlog 2 (numeral Num.One) = 1"
  by (simp add: floorlog_def)

lemma floorlog2_Bit0: "floorlog 2 (numeral (Num.Bit0 n)) = floorlog 2 (numeral n) + 1"
  by (subst compute_floorlog) simp

lemma floorlog2_Bit1: "floorlog 2 (numeral (Num.Bit1 n)) = floorlog 2 (numeral n) + 1"
  by (subst compute_floorlog) simp

lemmas double_add_eval = double_add_def dbl_exponent_def dbl_mantissa_def Let_def
  floorlog2_0 floorlog2_Suc0 floorlog2_One floorlog2_Bit0 floorlog2_Bit1

lemma double_add_1_1: "double_add 0x3FF0000000000000 0x3FF0000000000000 = 0x4000000000000000"
  by (simp add: double_add_eval)

lemma double_add_1_2: "double_add 0x3FF0000000000000 0x4000000000000000 = 0x4008000000000000"
  by (simp add: double_add_eval)

lemma double_add_3_3: "double_add 0x4008000000000000 0x4008000000000000 = 0x4018000000000000"
  by (simp add: double_add_eval)

lemma double_add_2_3: "double_add 0x4000000000000000 0x4008000000000000 = 0x4014000000000000"
  by (simp add: double_add_eval)

lemma double_add_1_5: "double_add 0x3FF0000000000000 0x4014000000000000 = 0x4018000000000000"
  by (simp add: double_add_eval)

lemma double_add_2_5: "double_add 0x4000000000000000 0x4014000000000000 = 0x401C000000000000"
  by (simp add: double_add_eval)

lemma double_add_tenth_fifth: "double_add 0x3FB999999999999A 0x3FC999999999999A = 0x3FD3333333333334"
  by (simp add: double_add_eval)

lemma double_add_sum_three_tenths: "double_add 0x3FD3333333333334 0x3FD3333333333333 = 0x3FE3333333333334"
  by (simp add: double_add_eval)

lemma double_add_fifth_three_tenths: "double_add 0x3FC999999999999A 0x3FD3333333333333 = 0x3FE0000000000000"
  by (simp add: double_add_eval)

lemma double_add_tenth_half: "double_add 0x3FB999999999999A 0x3FE0000000000000 = 0x3FE3333333333333"
  by (simp add: double_add_eval)

section \<open>Merging records\<close>

lemma merge_with_shared_key:
  "counts (merge_with add \<lparr>p_id = p, counts = [(k, x)]\<rparr> \<lparr>p_id = q, counts = [(k, y)]\<rparr>)
     = [(k, add x y)]"
  by (simp add: merge_with_def merge_step_def lower_bound_def lower_bound_from_0
        lower_bound_from_less lower_bound_from_not_less Let_def std_sort_def)

lemma merge_example:
  "merge_with double_add
     \<lparr>p_id = 7, counts = [(1, 0x3FF0000000000000), (3, 0x4000000000000000)]\<rparr>
     \<lparr>p_id = 7, counts = [(2, 0x4010000000000000), (3, 0x4014000000000000)]\<rparr>
   = \<lparr>p_id = 7, counts = [(1, 0x3FF0000000000000), (2, 0x4010000000000000),
                            (3, 0x401C000000000000)]\<rparr>"
  by (simp add: merge_with_def merge_step_def lower_bound_def lower_bound_from_0
        lower_bound_from_less lower_bound_from_not_less Let_def
        std_sort_def double_add_2_5 word_le_nat_alt word_less_nat_alt)

text \<open>
  Claim C5, as the code has it. For records whose secondary keys ascend strictly,
  \<^verbatim>\<open>merge_with\<close> keeps the receiver's primary key and leaves the union of the two
  key sets, strictly ascending: a key of one record only keeps its weight, a key of both
  gets the sum of its two weights. Merging is commutative where the addition of the
  weights is (that of doubles is, for finite weights that are not negative). It is
  associative on the keys, and on the weights where the additions are associative for
  the weights at hand; doubles round, so sums of three weights may depend on the order.
  Merging \<open>{7, [(1,1),(3,2)]}\<close> with \<open>{7, [(2,4),(3,5)]}\<close> gives
  \<open>{7, [(1,1),(2,4),(3,7)]}\<close>.
\<close>

theorem merge_with_union_sum:
  assumes "strictly_ascending (counts a)" and "strictly_ascending (counts b)"
    and "strictly_ascending (counts c)"
  shows "primary_key (merge_with add a b) = primary_key a
    \<and> strictly_ascending (counts (merge_with add a b))
    \<and> (\<forall>k. map_of (counts (merge_with add a b)) k
              = sum_weights add (map_of (counts a) k) (map_of (counts b) k))
    \<and> ((\<forall>x \<in> snd ` set (counts a). \<forall>y \<in> snd ` set (counts b). add x y = add y x)
          \<longrightarrow> counts (merge_with add a b) = counts (merge_with add b a))
    \<and> (valid_counts (counts a) \<and> valid_counts (counts b)
          \<longrightarrow> counts (merge_with double_add a b) = counts (merge_with double_add b a))
    \<and> ((\<forall>x \<in> snd ` set (counts a). \<forall>y \<in> snd ` set (counts b). \<forall>z \<in> snd ` set (counts c).
            add (add x y) z = add x (add y z))
          \<longrightarrow> counts (merge_with add (merge_with add a b) c)
                = counts (merge_with add a (merge_with add b c)))
    \<and> merge_with double_add
          \<lparr>p_id = 7, counts = [(1, 0x3FF0000000000000), (3, 0x4000000000000000)]\<rparr>
          \<lparr>p_id = 7, counts = [(2, 0x4010000000000000), (3, 0x4014000000000000)]\<rparr>
        = \<lparr>p_id = 7, counts = [(1, 0x3FF0000000000000), (2, 0x4010000000000000),
                                 (3, 0x401C000000000000)]\<rparr>"
proof (intro conjI allI impI)
  show "primary_key (merge_with add a b) = primary_key a"
    by (simp add: merge_with_def primary_key_def)
  show "strictly_ascending (counts (merge_with add a b))"
    by (rule strictly_ascending_merge_with [OF assms(1,2)])
  show "map_of (counts (merge_with add a b)) k
          = sum_weights add (map_of (counts a) k) (map_of (counts b) k)" for k
    by (rule map_of_merge_with [OF assms(1,2)])
  show "counts (merge_with add a b) = counts (merge_with add b a)"
    if "\<forall>x \<in> snd ` set (counts a). \<forall>y \<in> snd ` set (counts b). add x y = add y x"
    by (rule merge_with_commute [OF assms(1,2) that])
  show "counts (merge_with double_add a b) = counts (merge_with double_add b a)"
    if "valid_counts (counts a) \<and> valid_counts (counts b)"
    by (rule merge_with_commute [OF assms(1,2)]) (simp add: double_add_commute)
  show "counts (merge_with add (merge_with add a b) c)
          = counts (merge_with add a (merge_with add b c))"
    if "\<forall>x \<in> snd ` set (counts a). \<forall>y \<in> snd ` set (counts b). \<forall>z \<in> snd ` set (counts c).
          add (add x y) z = add x (add y z)"
    by (rule merge_with_assoc [OF assms that])
  show "merge_with double_add
          \<lparr>p_id = 7, counts = [(1, 0x3FF0000000000000), (3, 0x4000000000000000)]\<rparr>
          \<lparr>p_id = 7, counts = [(2, 0x4010000000000000), (3, 0x4014000000000000)]\<rparr>
        = \<lparr>p_id = 7, counts = [(1, 0x3FF0000000000000), (2, 0x4010000000000000),
                                 (3, 0x401C000000000000)]\<rparr>"
    by (rule merge_example)
qed

theorem merge_with_union_sum_witness:
  "strictly_ascending (counts \<lparr>p_id = 7, counts = [(1, 0x3FF0000000000000)]\<rparr>)
   \<and> strictly_ascending (counts \<lparr>p_id = 7, counts = [(1, 0x4000000000000000)]\<rparr>)
   \<and> strictly_ascending (counts \<lparr>p_id = 7, counts = [(1, 0x4008000000000000)]\<rparr>)
   \<and> double_add (double_add 0x3FF0000000000000 0x4000000000000000) 0x4008000000000000
       = double_add 0x3FF0000000000000 (double_add 0x4000000000000000 0x4008000000000000)
   \<and> counts (merge_with double_add
         (merge_with double_add \<lparr>p_id = 7, counts = [(1, 0x3FF0000000000000)]\<rparr>
            \<lparr>p_id = 7, counts = [(1, 0x4000000000000000)]\<rparr>)
         \<lparr>p_id = 7, counts = [(1, 0x4008000000000000)]\<rparr>)
     = counts (merge_with double_add \<lparr>p_id = 7, counts = [(1, 0x3FF0000000000000)]\<rparr>
         (merge_with double_add \<lparr>p_id = 7, counts = [(1, 0x4000000000000000)]\<rparr>
            \<lparr>p_id = 7, counts = [(1, 0x4008000000000000)]\<rparr>))
   \<and> valid_counts (counts \<lparr>p_id = 7, counts = [(1, 0x3FF0000000000000)]\<rparr>)
   \<and> valid_counts (counts \<lparr>p_id = 7, counts = [(1, 0x4000000000000000)]\<rparr>)
   \<and> counts (merge_with double_add \<lparr>p_id = 7, counts = [(1, 0x3FF0000000000000)]\<rparr>
         \<lparr>p_id = 7, counts = [(1, 0x4000000000000000)]\<rparr>)
     = counts (merge_with double_add \<lparr>p_id = 7, counts = [(1, 0x4000000000000000)]\<rparr>
         \<lparr>p_id = 7, counts = [(1, 0x3FF0000000000000)]\<rparr>)"
proof -
  let ?a = "\<lparr>p_id = 7, counts = [(1, 0x3FF0000000000000 :: weight)]\<rparr>"
  let ?b = "\<lparr>p_id = 7, counts = [(1, 0x4000000000000000 :: weight)]\<rparr>"
  let ?c = "\<lparr>p_id = 7, counts = [(1, 0x4008000000000000 :: weight)]\<rparr>"
  have a: "strictly_ascending (counts ?a)" and b: "strictly_ascending (counts ?b)"
    and c: "strictly_ascending (counts ?c)"
    by (simp_all add: strictly_ascending_def)
  have assoc: "\<forall>x \<in> snd ` set (counts ?a). \<forall>y \<in> snd ` set (counts ?b).
                 \<forall>z \<in> snd ` set (counts ?c).
                   double_add (double_add x y) z = double_add x (double_add y z)"
    by (simp add: double_add_1_2 double_add_3_3 double_add_2_3 double_add_1_5)
  have v: "valid_counts (counts ?a)" "valid_counts (counts ?b)"
    by (simp_all add: valid_counts_def strictly_ascending_def finite_nonneg_def)
  from merge_with_union_sum [OF a b c, of double_add] assoc v
  have "counts (merge_with double_add (merge_with double_add ?a ?b) ?c)
          = counts (merge_with double_add ?a (merge_with double_add ?b ?c))"
    and "counts (merge_with double_add ?a ?b) = counts (merge_with double_add ?b ?a)"
    by blast+
  moreover have "double_add (double_add 0x3FF0000000000000 0x4000000000000000) 0x4008000000000000
       = double_add 0x3FF0000000000000 (double_add 0x4000000000000000 0x4008000000000000)"
    by (simp add: double_add_1_2 double_add_3_3 double_add_2_3 double_add_1_5)
  ultimately show ?thesis using a b c v by blast
qed

text \<open>
  With the weights \<open>0.1\<close>, \<open>0.2\<close> and \<open>0.3\<close> on one key the two orders of merging
  leave different weights: \<open>(0.1 + 0.2) + 0.3\<close> is \<open>0.6000000000000001\<close> and
  \<open>0.1 + (0.2 + 0.3)\<close> is \<open>0.6\<close>.
\<close>

theorem merge_with_associative_counterexample:
  "valid_counts [(1, 0x3FB999999999999A)] \<and> valid_counts [(1, 0x3FC999999999999A)]
   \<and> valid_counts [(1, 0x3FD3333333333333)]
   \<and> counts (merge_with double_add
         (merge_with double_add \<lparr>p_id = 7, counts = [(1, 0x3FB999999999999A)]\<rparr>
            \<lparr>p_id = 7, counts = [(1, 0x3FC999999999999A)]\<rparr>)
         \<lparr>p_id = 7, counts = [(1, 0x3FD3333333333333)]\<rparr>)
       = [(1, 0x3FE3333333333334)]
   \<and> counts (merge_with double_add \<lparr>p_id = 7, counts = [(1, 0x3FB999999999999A)]\<rparr>
         (merge_with double_add \<lparr>p_id = 7, counts = [(1, 0x3FC999999999999A)]\<rparr>
            \<lparr>p_id = 7, counts = [(1, 0x3FD3333333333333)]\<rparr>))
       = [(1, 0x3FE3333333333333)]"
proof -
  have ab: "merge_with double_add \<lparr>p_id = 7, counts = [(1, 0x3FB999999999999A)]\<rparr>
              \<lparr>p_id = 7, counts = [(1, 0x3FC999999999999A)]\<rparr>
            = \<lparr>p_id = 7, counts = [(1, 0x3FD3333333333334)]\<rparr>"
    using merge_with_shared_key [of double_add 7 1 "0x3FB999999999999A" 7 "0x3FC999999999999A"]
    by (simp add: double_add_tenth_fifth merge_with_def)
  have bc: "merge_with double_add \<lparr>p_id = 7, counts = [(1, 0x3FC999999999999A)]\<rparr>
              \<lparr>p_id = 7, counts = [(1, 0x3FD3333333333333)]\<rparr>
            = \<lparr>p_id = 7, counts = [(1, 0x3FE0000000000000)]\<rparr>"
    using merge_with_shared_key [of double_add 7 1 "0x3FC999999999999A" 7 "0x3FD3333333333333"]
    by (simp add: double_add_fifth_three_tenths merge_with_def)
  have v: "valid_counts [(1, 0x3FB999999999999A)]" "valid_counts [(1, 0x3FC999999999999A)]"
    "valid_counts [(1, 0x3FD3333333333333)]"
    by (simp_all add: valid_counts_def strictly_ascending_def finite_nonneg_def)
  show ?thesis
    unfolding ab bc
    using v by (simp add: merge_with_shared_key double_add_sum_three_tenths double_add_tenth_half)
qed

section \<open>\<^verbatim>\<open>merge_with\<close> on objects in a store\<close>

text \<open>
  When the argument is another object than the receiver, the loop on the store is the
  loop on values of the sections above. In every case only the receiver is written to.
\<close>

lemma merge_body_distinct:
  "self \<noteq> other \<Longrightarrow>
   merge_body add self other orig_length i st
     = Inr (st(self := (st self)
          \<lparr>counts := merge_step add orig_length (counts (st self)) (counts (st other) ! i)\<rparr>))"
  by (simp add: merge_body_def merge_step_def Let_def)

lemma merge_loop_distinct:
  "self \<noteq> other \<Longrightarrow>
   merge_loop add self other orig_length js st
     = Inr (st(self := (st self)
          \<lparr>counts := foldl (merge_step add orig_length) (counts (st self))
                       (map (\<lambda>i. counts (st other) ! i) js)\<rparr>))"
proof (induction js arbitrary: st)
  case Nil
  then show ?case by simp
next
  case (Cons j js)
  let ?st = "st(self := (st self)
          \<lparr>counts := merge_step add orig_length (counts (st self)) (counts (st other) ! j)\<rparr>)"
  have other: "?st other = st other" using Cons.prems by simp
  have "merge_loop add self other orig_length (j # js) st
          = merge_loop add self other orig_length js ?st"
    by (simp add: merge_body_distinct [OF Cons.prems])
  also have "\<dots> = Inr (?st(self := (?st self)
          \<lparr>counts := foldl (merge_step add orig_length) (counts (?st self))
                       (map (\<lambda>i. counts (?st other) ! i) js)\<rparr>))"
    by (rule Cons.IH [OF Cons.prems])
  finally have eq: "merge_loop add self other orig_length (j # js) st
      = Inr (?st(self := (?st self)
          \<lparr>counts := foldl (merge_step add orig_length) (counts (?st self))
                       (map (\<lambda>i. counts (?st other) ! i) js)\<rparr>))" .
  show ?case
    unfolding eq other using Cons.prems by (simp add: fun_eq_iff)
qed

lemma merge_with_at_distinct:
  assumes "self \<noteq> other"
  shows "merge_with_at add st self other = Inr (st(self := merge_with add (st self) (st other)))"
proof -
  have "map (\<lambda>i. counts (st other) ! i) [0 ..< length (counts (st other))] = counts (st other)"
    by (rule map_nth)
  then show ?thesis
    by (simp add: merge_with_at_def merge_loop_distinct [OF assms] merge_with_def)
qed

lemma merge_body_frame:
  "merge_body add self other orig_length i st = Inr st' \<Longrightarrow>
   p_id (st' self) = p_id (st self) \<and> (\<forall>x. x \<noteq> self \<longrightarrow> st' x = st x)"
  by (auto simp: merge_body_def Let_def split: if_splits)

lemma merge_loop_frame:
  "merge_loop add self other orig_length js st = Inr st' \<Longrightarrow>
   p_id (st' self) = p_id (st self) \<and> (\<forall>x. x \<noteq> self \<longrightarrow> st' x = st x)"
proof (induction js arbitrary: st)
  case Nil
  then show ?case by simp
next
  case (Cons j js)
  then obtain st1 where b: "merge_body add self other orig_length j st = Inr st1"
    and l: "merge_loop add self other orig_length js st1 = Inr st'"
    by (auto split: sum.splits)
  from merge_body_frame [OF b] Cons.IH [OF l] show ?case by simp
qed

lemma merge_with_at_frame_receiver:
  assumes "merge_with_at add st self other = Inr st'"
  shows "p_id (st' self) = p_id (st self) \<and> (\<forall>x. x \<noteq> self \<longrightarrow> st' x = st x)"
proof -
  from assms obtain st1 where
    l: "merge_loop add self other (length (counts (st self)))
          [0 ..< length (counts (st other))] st = Inr st1"
    and r: "st' = st1(self := (st1 self)\<lparr>counts := std_sort (counts (st1 self))\<rparr>)"
    by (auto simp: merge_with_at_def split: sum.splits)
  from merge_loop_frame [OF l] show ?thesis by (simp add: r)
qed

text \<open>
  Claim C10, as the code has it. \<^verbatim>\<open>merge_with(other)\<close> changes no object but the
  receiver, and of the receiver only the pairs: its primary key stays. So an argument
  that is a different object from the receiver has the same primary key and the same
  pairs after the call, which then always returns, with the receiver merged.
\<close>

theorem merge_with_at_frame:
  "(self \<noteq> other \<longrightarrow>
      (\<exists>st'. merge_with_at add st self other = Inr st'
         \<and> st' other = st other
         \<and> st' self = merge_with add (st self) (st other)))
   \<and> (\<forall>st'. merge_with_at add st self other = Inr st' \<longrightarrow>
         primary_key (st' self) = primary_key (st self)
         \<and> (\<forall>x. x \<noteq> self \<longrightarrow> st' x = st x))"
proof (intro conjI impI allI)
  assume "self \<noteq> other"
  then show "\<exists>st'. merge_with_at add st self other = Inr st'
         \<and> st' other = st other
         \<and> st' self = merge_with add (st self) (st other)"
    by (simp add: merge_with_at_distinct)
next
  fix st' assume r: "merge_with_at add st self other = Inr st'"
  from merge_with_at_frame_receiver [OF r]
  show "primary_key (st' self) = primary_key (st self)"
    by (simp add: primary_key_def)
  fix x assume "x \<noteq> self"
  with merge_with_at_frame_receiver [OF r] show "st' x = st x" by simp
qed

theorem merge_with_at_frame_witness:
  "(0 :: nat) \<noteq> 1
   \<and> (\<exists>st'. merge_with_at double_add
               (\<lambda>_. \<lparr>p_id = 7, counts = [(1, 0x3FF0000000000000)]\<rparr>) 0 1 = Inr st'
          \<and> st' 1 = \<lparr>p_id = 7, counts = [(1, 0x3FF0000000000000)]\<rparr>
          \<and> st' 0 = \<lparr>p_id = 7, counts = [(1, 0x4000000000000000)]\<rparr>
          \<and> primary_key (st' 0) = 7)"
proof -
  let ?r = "\<lparr>p_id = 7, counts = [(1, 0x3FF0000000000000 :: weight)]\<rparr>"
  let ?st = "\<lambda>_ :: nat. ?r"
  have m: "merge_with double_add ?r ?r = \<lparr>p_id = 7, counts = [(1, 0x4000000000000000)]\<rparr>"
    using merge_with_shared_key [of double_add 7 1 "0x3FF0000000000000" 7 "0x3FF0000000000000"]
    by (simp add: merge_with_def double_add_1_1)
  from merge_with_at_frame [of 0 1 double_add ?st]
  obtain st' where r: "merge_with_at double_add ?st 0 1 = Inr st'"
    and o: "st' 1 = ?st 1" and s: "st' 0 = merge_with double_add (?st 0) (?st 1)"
    and k: "primary_key (st' 0) = primary_key (?st 0)"
    by auto
  show ?thesis
    using r o s k by (intro conjI exI [of _ st']) (simp_all add: m primary_key_def)
qed

text \<open>
  A record merged with itself: \<open>other\<close> is the receiver, every key is found, and each
  weight is added to itself. The pairs of the argument are not what they were.
\<close>

theorem merge_with_at_self_counterexample:
  "merge_with_at double_add (\<lambda>_. \<lparr>p_id = 7, counts = [(1, 0x3FF0000000000000)]\<rparr>) 0 0
     = Inr ((\<lambda>_. \<lparr>p_id = 7, counts = [(1, 0x3FF0000000000000)]\<rparr>)
              (0 := \<lparr>p_id = 7, counts = [(1, 0x4000000000000000)]\<rparr>))
   \<and> counts \<lparr>p_id = 7, counts = [(1 :: secondary_key, 0x4000000000000000 :: weight)]\<rparr>
       \<noteq> counts \<lparr>p_id = 7, counts = [(1, 0x3FF0000000000000)]\<rparr>"
  by (simp add: merge_with_at_def merge_body_def lower_bound_def lower_bound_from_0
        lower_bound_from_less lower_bound_from_not_less Let_def std_sort_def double_add_1_1)

section \<open>The compress pass\<close>

text \<open>
  The keys the inner loop runs through are those from its start up to, and without, the
  key of the record read. For a chunk whose primary keys ascend strictly, the records
  written carry the keys from 1 (from 0 when the first record has key 0) up to the key
  of the last record, each once, whatever \<open>num_docs\<close> is.
\<close>

lemma unat_succ_below: "d < pk \<Longrightarrow> unat (d + 1) = Suc (unat d)" for d pk :: "64 word"
  by unat_arith

lemma unat_gap_ids: "map unat (gap_ids d_id pk) = [unat d_id ..< unat pk]"
proof (induction d_id pk rule: gap_ids.induct)
  case (1 d_id pk)
  show ?case
  proof (cases "d_id < pk")
    case True
    hence lt: "unat d_id < unat pk" by (simp add: word_less_nat_alt)
    have "map unat (gap_ids d_id pk) = unat d_id # map unat (gap_ids (d_id + 1) pk)"
      using True by (subst gap_ids.simps) simp
    also have "\<dots> = unat d_id # [Suc (unat d_id) ..< unat pk]"
      using "1.IH" [OF True] by (simp add: unat_succ_below [OF True])
    also have "\<dots> = [unat d_id ..< unat pk]"
      using lt by (simp add: upt_conv_Cons)
    finally show ?thesis .
  next
    case False
    hence "unat pk \<le> unat d_id" by (simp add: word_less_nat_alt)
    moreover have "gap_ids d_id pk = []"
      using False by (subst gap_ids.simps) simp
    ultimately show ?thesis by simp
  qed
qed

lemma compress_loop_keys:
  "sorted_wrt (<) (last_id # map primary_key input) \<Longrightarrow>
   map (unat \<circ> primary_key) (compress_loop last_id out input)
     = map (unat \<circ> primary_key) out
       @ [Suc (unat last_id) ..< Suc (unat (last (last_id # map primary_key input)))]"
proof (induction input arbitrary: last_id out)
  case Nil
  then show ?case by simp
next
  case (Cons r rs)
  let ?p = "primary_key r"
  let ?L = "last (?p # map primary_key rs)"
  from Cons.prems have lt: "last_id < ?p" and srt: "sorted_wrt (<) (?p # map primary_key rs)"
    by simp_all
  have pL: "unat ?p \<le> unat ?L"
  proof (cases rs)
    case Nil
    then show ?thesis by simp
  next
    case (Cons x xs)
    hence "?L \<in> set (map primary_key rs)" by (metis last_ConsR last_in_set list.map_disc_iff list.simps(3))
    hence "?p < ?L" using srt by auto
    then show ?thesis by (simp add: word_less_nat_alt)
  qed
  have lp: "Suc (unat last_id) \<le> unat ?p"
    using lt by (simp add: word_less_nat_alt)
  have gaps: "map (unat \<circ> primary_key) (map new_postings_data (gap_ids (last_id + 1) ?p))
                = [Suc (unat last_id) ..< unat ?p]"
  proof -
    have "map (unat \<circ> primary_key) (map new_postings_data (gap_ids (last_id + 1) ?p))
            = map unat (gap_ids (last_id + 1) ?p)"
      by (simp add: comp_def primary_key_def new_postings_data_def)
    then show ?thesis
      by (simp add: unat_gap_ids unat_succ_below [OF lt])
  qed
  have "compress_loop last_id out (r # rs)
          = compress_loop ?p (out @ map new_postings_data (gap_ids (last_id + 1) ?p) @ [r]) rs"
    by simp
  hence "map (unat \<circ> primary_key) (compress_loop last_id out (r # rs))
          = map (unat \<circ> primary_key)
              (compress_loop ?p (out @ map new_postings_data (gap_ids (last_id + 1) ?p) @ [r]) rs)"
    by (rule arg_cong)
  also have "\<dots> = map (unat \<circ> primary_key)
              (out @ map new_postings_data (gap_ids (last_id + 1) ?p) @ [r])
            @ [Suc (unat ?p) ..< Suc (unat ?L)]"
    by (rule Cons.IH [OF srt])
  also have "\<dots> = map (unat \<circ> primary_key) out
                    @ ([Suc (unat last_id) ..< unat ?p] @ [unat ?p]) @ [Suc (unat ?p) ..< Suc (unat ?L)]"
    using gaps by (simp del: upt_Suc)
  also have "[Suc (unat last_id) ..< unat ?p] @ [unat ?p] = [Suc (unat last_id) ..< Suc (unat ?p)]"
    using lp by simp
  also have "[Suc (unat last_id) ..< Suc (unat ?p)] @ [Suc (unat ?p) ..< Suc (unat ?L)]
               = [Suc (unat last_id) ..< Suc (unat ?L)]"
  proof -
    have "Suc (unat last_id) \<le> Suc (unat ?p)" using lp by simp
    from upt_add_eq_append [OF this, of "unat ?L - unat ?p"] pL
    show ?thesis by (simp del: upt_Suc)
  qed
  finally show ?case by (simp del: upt_Suc)
qed

lemma compress_keys:
  assumes "sorted_wrt (<) (map primary_key (r # rs))"
  shows "map (unat \<circ> primary_key) (compress num_docs (r # rs))
           = [(if primary_key r = 0 then 0 else 1)
                ..< Suc (unat (last (map primary_key (r # rs))))]"
proof -
  let ?p = "primary_key r"
  let ?L = "last (?p # map primary_key rs)"
  let ?out = "map new_postings_data (gap_ids (0 + 1) ?p) @ [r]"
  have srt: "sorted_wrt (<) (?p # map primary_key rs)" using assms by simp
  have pL: "unat ?p \<le> unat ?L"
  proof (cases rs)
    case Nil
    then show ?thesis by simp
  next
    case (Cons x xs)
    hence "?L \<in> set (map primary_key rs)" by (metis last_ConsR last_in_set list.map_disc_iff list.simps(3))
    hence "?p < ?L" using srt by auto
    then show ?thesis by (simp add: word_less_nat_alt)
  qed
  have out: "map (unat \<circ> primary_key) ?out = [Suc 0 ..< unat ?p] @ [unat ?p]"
  proof -
    have "map (unat \<circ> primary_key) (map new_postings_data (gap_ids (0 + 1) ?p))
            = map unat (gap_ids (0 + 1) ?p)"
      by (simp add: comp_def primary_key_def new_postings_data_def)
    then show ?thesis by (simp add: unat_gap_ids)
  qed
  have "compress num_docs (r # rs) = compress_loop ?p ([] @ ?out) rs"
    by (simp add: compress_def)
  hence "map (unat \<circ> primary_key) (compress num_docs (r # rs))
           = map (unat \<circ> primary_key) (compress_loop ?p ?out rs)"
    by simp
  also have "\<dots> = map (unat \<circ> primary_key) ?out @ [Suc (unat ?p) ..< Suc (unat ?L)]"
    by (rule compress_loop_keys [OF srt])
  also have "\<dots> = ([Suc 0 ..< unat ?p] @ [unat ?p]) @ [Suc (unat ?p) ..< Suc (unat ?L)]"
    by (simp only: out)
  also have "\<dots> = [(if ?p = 0 then 0 else 1) ..< Suc (unat ?L)]"
  proof (cases "?p = 0")
    case True
    then show ?thesis by (simp add: upt_conv_Cons del: upt_Suc)
  next
    case False
    hence one: "Suc 0 \<le> unat ?p" by (simp add: unat_gt_0 Suc_leI)
    hence "Suc 0 \<le> Suc (unat ?p)" by simp
    from upt_add_eq_append [OF this, of "unat ?L - unat ?p"] pL one False
    show ?thesis by (simp del: upt_Suc) simp
  qed
  finally show ?thesis by simp
qed


section \<open>Lookup in the postings file\<close>

text \<open>
  Claim C7. \<^verbatim>\<open>find_stream(pk)\<close> returns a stream exactly when \<open>pk\<close> is below the
  length of the offset table, and then the stream starts at the offset stored for
  \<open>pk\<close>; which of the two it returns, and the start offset, are the same for any
  content of the postings data file, whose bytes are only handed on to the stream.
  \<^verbatim>\<open>find(pk)\<close> with \<open>pk\<close> at or past \<^verbatim>\<open>num_keys()\<close> returns the record with
  primary key \<open>pk\<close> and no pairs; it has no failing branch.
\<close>

theorem find_stream_in_range:
  "(unat pk < num_keys pf \<longrightarrow>
      (\<exists>s. find_stream pf pk = Some s \<and> seek_pos s = byte_locations pf ! unat pk
         \<and> mapped s = postings pf))
   \<and> (num_keys pf \<le> unat pk \<longrightarrow> find_stream pf pk = None)
   \<and> find_stream (pf\<lparr>postings := bytes\<rparr>) pk
       = map_option (\<lambda>s. s\<lparr>mapped := bytes\<rparr>) (find_stream pf pk)
   \<and> (num_keys pf \<le> unat pk \<longrightarrow>
        find_pd populate pf pk = new_postings_data pk
        \<and> primary_key (find_pd populate pf pk) = pk \<and> counts (find_pd populate pf pk) = [])"
  by (simp add: find_stream_def find_pd_def num_keys_def new_postings_data_def primary_key_def
        Let_def)

theorem find_stream_in_range_witness:
  "unat (1 :: primary_key) < num_keys \<lparr>postings = [0, 1, 2], byte_locations = [0, 2]\<rparr>
   \<and> find_stream \<lparr>postings = [0, 1, 2], byte_locations = [0, 2]\<rparr> 1
       = Some \<lparr>mapped = [0, 1, 2], seek_pos = 2\<rparr>
   \<and> num_keys \<lparr>postings = [0, 1, 2], byte_locations = [0, 2]\<rparr> \<le> unat (2 :: primary_key)
   \<and> find_stream \<lparr>postings = [0, 1, 2], byte_locations = [0, 2]\<rparr> 2 = None
   \<and> find_pd (\<lambda>r s. r) \<lparr>postings = [0, 1, 2], byte_locations = [0, 2]\<rparr> 2
       = \<lparr>p_id = 2, counts = []\<rparr>"
proof -
  let ?pf = "\<lparr>postings = [0, 1, 2], byte_locations = [0, 2]\<rparr>"
  have a: "unat (1 :: primary_key) < num_keys ?pf" by (simp add: num_keys_def)
  have b: "num_keys ?pf \<le> unat (2 :: primary_key)" by (simp add: num_keys_def)
  from find_stream_in_range [of 1 ?pf "[]" "\<lambda>r s. r"] a
  obtain s where s: "find_stream ?pf 1 = Some s" "seek_pos s = byte_locations ?pf ! unat (1 :: primary_key)"
    "mapped s = postings ?pf"
    by blast
  hence s': "find_stream ?pf 1 = Some \<lparr>mapped = [0, 1, 2], seek_pos = 2\<rparr>"
    by (cases s) simp
  from find_stream_in_range [of 2 ?pf "[]" "\<lambda>r s. r"] b
  have "find_stream ?pf 2 = None" and "find_pd (\<lambda>r s. r) ?pf 2 = new_postings_data 2"
    by blast+
  with a b s' show ?thesis by (simp add: new_postings_data_def)
qed

end
